theory Spec2Isabelle
  imports Complex_Main
begin

section \<open>DBSCAN of cluster.js: the data model\<close>

text \<open>
  The input of \<open>run\<close> is an array of objects with numeric properties. An object is an
  association list from property names to numbers, in the object's own key order (the
  order in which \<open>_.reduce\<close> visits the properties of an object it does not take for
  an array). Numbers are idealised as reals; the one
  special value that matters to the control flow, \<open>NaN\<close> (from reading a property the
  other object lacks), is \<open>None\<close>.
\<close>

type_synonym point = "(string \<times> real) list"

text \<open>
  The \<open>cluster\<close> field holds \<open>false\<close> at creation, the string \<open>'N'\<close> for noise, or
  the numeric identifier of a cluster.
\<close>

datatype label = Unassigned | Noise | Cluster nat

text \<open>
  One metadata object per datum, as built in \<open>run\<close>:
  \<open>{"visited": false, "neighbors": [], 'cluster': false, "obj": obj}\<close>.
  The sparse array \<open>neighbors\<close> is a partial map from indices to booleans.
\<close>

record meta =
  visited :: bool
  neighbors :: "nat \<Rightarrow> bool option"
  cluster :: label
  obj :: point

text \<open>
  The metadata array is a list of these records. The objects in it are mutated in place;
  a reference to one of them (\<open>pt\<close>, \<open>npt\<close>, \<open>tpt\<close>) is its position in the list,
  and a mutation is a list update at that position.
\<close>

definition set_visited :: "meta list \<Rightarrow> nat \<Rightarrow> meta list" where
  "set_visited md p = md[p := (md ! p)\<lparr>visited := True\<rparr>]"

definition set_cluster :: "meta list \<Rightarrow> nat \<Rightarrow> label \<Rightarrow> meta list" where
  "set_cluster md p l = md[p := (md ! p)\<lparr>cluster := l\<rparr>]"

definition set_neighbor :: "meta list \<Rightarrow> nat \<Rightarrow> nat \<Rightarrow> bool \<Rightarrow> meta list" where
  "set_neighbor md p ti b = md[p := (md ! p)\<lparr>neighbors := (neighbors (md ! p))(ti \<mapsto> b)\<rparr>]"

text \<open>JavaScript's \<open>!npt.cluster\<close>: \<open>false\<close> and the number 0 are falsy, \<open>'N'\<close> is not.\<close>

definition falsy :: "label \<Rightarrow> bool" where
  "falsy l = (l = Unassigned \<or> l = Cluster 0)"

section \<open>util.js: distance\<close>

text \<open>
  \<open>_.reduce(obj1, function (dist,val,key) { return dist + Math.pow(obj2[key] - val, 2) }, 0)\<close>
  followed by \<open>Math.sqrt\<close>.

  What \<open>_.reduce\<close> visits depends on \<open>obj1\<close>. Underscore takes an object for an array
  when it has a numeric \<open>length\<close> property, and then visits the indices
  \<open>0, 1, ...\<close> below \<open>length\<close>, with the index as key and \<open>obj1[index]\<close> as value,
  whatever other properties the object has; otherwise it visits the object's own
  properties. The test is the one of underscore from release 1.8 on,
  \<open>0 <= length <= 2^53 - 1\<close> (earlier releases take every numeric \<open>length\<close>); the
  properties proved below are about objects without a \<open>length\<close> property or with a
  \<open>length\<close> of 0 or 1, where the releases agree. A property name that is an index is
  its decimal numeral.
\<close>

fun index_key :: "nat \<Rightarrow> string" where
  "index_key n =
     (if n < 10 then [''0123456789'' ! n]
      else index_key (n div 10) @ [''0123456789'' ! (n mod 10)])"

declare index_key.simps [simp del]

definition array_length :: "point \<Rightarrow> nat option" where
  "array_length ob =
     (case map_of ob ''length'' of
        None \<Rightarrow> None
      | Some n \<Rightarrow> if 0 \<le> n \<and> n \<le> 2 ^ 53 - 1 then Some (nat \<lceil>n\<rceil>) else None)"

text \<open>
  The (key, value) pairs in the order \<open>_.reduce\<close> passes them to the callback; the value
  at an index the object lacks is \<open>undefined\<close>, here \<open>None\<close>.
\<close>

definition reduce_items :: "point \<Rightarrow> (string \<times> real option) list" where
  "reduce_items ob =
     (case array_length ob of
        None \<Rightarrow> map (\<lambda>kv. (fst kv, Some (snd kv))) ob
      | Some n \<Rightarrow> map (\<lambda>i. (index_key i, map_of ob (index_key i))) [0..<n])"

text \<open>
  The callback. A key missing from \<open>obj2\<close> reads \<open>undefined\<close>, and the arithmetic on
  \<open>undefined\<close> is \<open>NaN\<close> from there on.
\<close>

definition reduce_step :: "point \<Rightarrow> real option \<Rightarrow> string \<times> real option \<Rightarrow> real option" where
  "reduce_step obj2 acc kv =
     (case acc of
        None \<Rightarrow> None
      | Some d \<Rightarrow> (case map_of obj2 (fst kv) of
                    None \<Rightarrow> None
                  | Some v \<Rightarrow> (case snd kv of
                                None \<Rightarrow> None
                              | Some val \<Rightarrow> Some (d + (v - val)\<^sup>2))))"

definition distance :: "point \<Rightarrow> point \<Rightarrow> real option" where
  "distance obj1 obj2 = map_option sqrt (foldl (reduce_step obj2) (Some 0) (reduce_items obj1))"

text \<open>The comparison \<open>dist < eps\<close>; it is false when \<open>dist\<close> is \<open>NaN\<close>.\<close>

definition num_less :: "real option \<Rightarrow> real \<Rightarrow> bool" where
  "num_less d eps = (case d of None \<Rightarrow> False | Some x \<Rightarrow> x < eps)"

section \<open>dbscan.js: neighborhood\<close>

text \<open>
  One iteration of the \<open>_.each(metadata, function (tpt,ti) ...)\<close> loop. \<open>p\<close> is the
  position of the object \<open>pt\<close>, \<open>i\<close> the index argument. The statement
  \<open>(tpt.neighbors[i] === false) && return;\<close> is read as an early return. Besides the
  list \<open>neigh\<close> and the table, the state carries a ghost list of the indices \<open>ti\<close> for
  which \<open>util.distance\<close> was called, so that claims about recomputation can be stated.
\<close>

definition neighborhood_step ::
  "nat \<Rightarrow> nat \<Rightarrow> real \<Rightarrow> nat list \<times> meta list \<times> nat list \<Rightarrow> nat
     \<Rightarrow> nat list \<times> meta list \<times> nat list" where
  "neighborhood_step p i eps acc ti =
     (case acc of (neigh, md, computed) \<Rightarrow>
        if neighbors (md ! ti) i = Some False then (neigh, md, computed)
        else if neighbors (md ! ti) i = Some True \<or> ti = i then (neigh @ [ti], md, computed)
        else if num_less (distance (obj (md ! p)) (obj (md ! ti))) eps
             then (neigh @ [ti], set_neighbor md p ti True, computed @ [ti])
             else (neigh, set_neighbor md p ti False, computed @ [ti]))"

text \<open>
  \<open>neighborhood(metadata, pt, i, eps)\<close>, with \<open>pt\<close> the object at position \<open>p\<close> of the
  table (every call site passes an element of \<open>metadata\<close>). The result is the returned
  array, the table after the call and the ghost list.
\<close>

definition neighborhood ::
  "meta list \<Rightarrow> nat \<Rightarrow> nat \<Rightarrow> real \<Rightarrow> nat list \<times> meta list \<times> nat list" where
  "neighborhood md p i eps =
     foldl (neighborhood_step p i eps) ([], md, []) [0..<length md]"

section \<open>dbscan.js: expandCluster\<close>

text \<open>
  Underscore's \<open>_.uniq\<close> keeps the first occurrence of every value, and
  \<open>_.union(a, b)\<close> is \<open>_.uniq\<close> of the concatenation.
\<close>

definition uniq :: "nat list \<Rightarrow> nat list" where
  "uniq xs = foldl (\<lambda>result v. if v \<in> set result then result else result @ [v]) [] xs"

definition us_union :: "nat list \<Rightarrow> nat list \<Rightarrow> nat list" where
  "us_union a b = uniq (a @ b)"

text \<open>
  The number of points not yet visited; it bounds the depth of the recursion.
\<close>

definition unvisited :: "meta list \<Rightarrow> nat" where
  "unvisited md = length (filter (\<lambda>m. \<not> visited m) md)"

text \<open>
  The loop \<open>_.each(neigh, function (ni) ...)\<close> of \<open>expandCluster\<close>, over the part
  \<open>todo\<close> of \<open>neigh\<close> still to be visited. \<open>metadata[ni]\<close> is \<open>undefined\<close> for an
  index outside the table and reading \<open>npt.cluster\<close> then throws a TypeError: the
  result \<open>None\<close>. The arguments \<open>pt\<close> and \<open>i\<close> of the source are only ever passed on to
  the recursive call and are left out; \<open>console.log\<close> is not modelled.
\<close>

function expandEach ::
  "meta list \<Rightarrow> nat \<Rightarrow> nat list \<Rightarrow> nat list \<Rightarrow> int \<Rightarrow> real \<Rightarrow> meta list option" where
  "expandEach md c neigh [] minPts eps = Some md"
| "expandEach md c neigh (ni # todo) minPts eps =
     (if length md \<le> ni then None
      else
        let md1 = (if falsy (cluster (md ! ni)) then set_cluster md ni (Cluster c) else md) in
        if \<not> visited (md1 ! ni) then
          (case neighborhood (set_visited md1 ni) ni ni eps of
             (nptNeigh, md2, computed) \<Rightarrow>
               if int (length nptNeigh) > minPts then
                 (case expandEach md2 c (us_union neigh nptNeigh) (us_union neigh nptNeigh)
                         minPts eps of
                    None \<Rightarrow> None
                  | Some md3 \<Rightarrow> expandEach md3 c neigh todo minPts eps)
               else expandEach md2 c neigh todo minPts eps)
        else expandEach md1 c neigh todo minPts eps)"
  by pat_completeness auto

text \<open>\<open>expandCluster(metadata, cluster, pt, i, neigh, minPts, eps)\<close>: the loop runs over all of \<open>neigh\<close>.\<close>

definition expandCluster ::
  "meta list \<Rightarrow> nat \<Rightarrow> nat list \<Rightarrow> int \<Rightarrow> real \<Rightarrow> meta list option" where
  "expandCluster md c neigh minPts eps = expandEach md c neigh neigh minPts eps"

section \<open>dbscan.js: run\<close>

definition new_meta :: "point \<Rightarrow> meta" where
  "new_meta ob = \<lparr>visited = False, neighbors = Map.empty, cluster = Unassigned, obj = ob\<rparr>"

text \<open>
  \<open>_.where(metadata, { "visited": false })\<close> builds a new array of the objects whose
  \<open>visited\<close> is \<open>false\<close> at that moment: here, the list of their positions. It is
  evaluated once, before the \<open>_.each\<close> loop starts.
\<close>

definition where_unvisited :: "meta list \<Rightarrow> nat list" where
  "where_unvisited md = filter (\<lambda>p. \<not> visited (md ! p)) [0..<length md]"

text \<open>
  The body \<open>function (pt,i) ...\<close> of the scan: \<open>p\<close> is the position of \<open>pt\<close> in the
  table and \<open>i\<close> its index in the filtered array. The state is the table and the counter
  \<open>cluster\<close>; \<open>None\<close> is an exception thrown further down.
\<close>

definition scan_step ::
  "real \<Rightarrow> int \<Rightarrow> (meta list \<times> nat) option \<Rightarrow> nat \<times> nat \<Rightarrow> (meta list \<times> nat) option" where
  "scan_step eps minPoints st pti =
     (case st of
        None \<Rightarrow> None
      | Some (md, c) \<Rightarrow>
          (case pti of (p, i) \<Rightarrow>
            (case neighborhood (set_visited md p) p i eps of
               (neigh, md2, computed) \<Rightarrow>
                 if int (length neigh) < minPoints then Some (set_cluster md2 p Noise, c)
                 else (case expandCluster md2 (c + 1) neigh minPoints eps of
                         None \<Rightarrow> None
                       | Some md3 \<Rightarrow> Some (md3, c + 1)))))"

text \<open>
  The \<open>_.each\<close> loop of the scan over a list of (position, index) pairs, from a given
  table and counter. \<open>run\<close> starts it on the fresh table with the whole filtered array;
  started on a later part of the array it is the remainder of a run.
\<close>

definition scan ::
  "real \<Rightarrow> int \<Rightarrow> meta list \<times> nat \<Rightarrow> (nat \<times> nat) list \<Rightarrow> (meta list \<times> nat) option" where
  "scan eps minPoints st pts = foldl (scan_step eps minPoints) (Some st) pts"

definition run :: "point list \<Rightarrow> real \<Rightarrow> int \<Rightarrow> meta list option" where
  "run data eps minPoints =
     (let metadata = map new_meta data;
          todo = where_unvisited metadata
      in map_option fst (scan eps minPoints (metadata, 0) (zip todo [0..<length todo])))"

section \<open>Notions used to state the properties\<close>

text \<open>
  What one pass of \<open>neighborhood\<close> does at index \<open>ti\<close>, read off the table it starts
  from: whether \<open>ti\<close> is pushed, whether the distance to it is computed, and the cache of
  \<open>pt\<close> after the indices \<open>ts\<close> have been visited.
\<close>

definition is_neighbor :: "meta list \<Rightarrow> nat \<Rightarrow> nat \<Rightarrow> real \<Rightarrow> nat \<Rightarrow> bool" where
  "is_neighbor md p i eps ti =
     (neighbors (md ! ti) i \<noteq> Some False \<and>
      (neighbors (md ! ti) i = Some True \<or> ti = i \<or>
       num_less (distance (obj (md ! p)) (obj (md ! ti))) eps))"

definition is_computed :: "meta list \<Rightarrow> nat \<Rightarrow> nat \<Rightarrow> bool" where
  "is_computed md i ti = (neighbors (md ! ti) i = None \<and> ti \<noteq> i)"

definition cache_after ::
  "meta list \<Rightarrow> nat \<Rightarrow> nat \<Rightarrow> real \<Rightarrow> nat list \<Rightarrow> nat \<Rightarrow> bool option" where
  "cache_after md p i eps ts =
     (\<lambda>k. if k \<in> set ts \<and> is_computed md i k
          then Some (num_less (distance (obj (md ! p)) (obj (md ! k))) eps)
          else neighbors (md ! p) k)"

text \<open>
  The documented input of \<open>run\<close>: objects that "share the same properties keys". As
  association lists, every object has each key once and all have the same key set.
\<close>

definition well_formed :: "point list \<Rightarrow> bool" where
  "well_formed data =
     ((\<forall>p \<in> set data. distinct (map fst p)) \<and>
      (\<forall>p \<in> set data. \<forall>q \<in> set data. set (map fst p) = set (map fst q)))"

text \<open>Objects that \<open>_.reduce\<close> cannot take for arrays: none has a property \<open>length\<close>.\<close>

definition plain_objects :: "point list \<Rightarrow> bool" where
  "plain_objects data = (\<forall>p \<in> set data. ''length'' \<notin> set (map fst p))"

text \<open>
  Every entry recorded in a cache agrees with the test \<open>distance < eps\<close>: it is the
  outcome of the comparison between the owner of the cache and the point the entry is
  about, as the owner's query computes it.
\<close>

definition cache_agrees :: "meta list \<Rightarrow> real \<Rightarrow> bool" where
  "cache_agrees md eps =
     (\<forall>j < length md. \<forall>k < length md. \<forall>b.
        neighbors (md ! j) k = Some b \<longrightarrow>
        b = num_less (distance (obj (md ! j)) (obj (md ! k))) eps)"

definition noise_count :: "meta list \<Rightarrow> nat" where
  "noise_count md = length (filter (\<lambda>m. cluster m = Noise) md)"

text \<open>
  The neighborhood of a point of the input, the point itself included, and the notions of
  the glossary built on it: a core point has at least \<open>minPts\<close> points in its
  neighborhood; a point is density-reachable from a core point through a chain of core
  points, each in the neighborhood of the one before.
\<close>

definition eps_neighborhood :: "point list \<Rightarrow> real \<Rightarrow> nat \<Rightarrow> nat list" where
  "eps_neighborhood data eps a =
     filter (\<lambda>b. b = a \<or> num_less (distance (data ! a) (data ! b)) eps) [0..<length data]"

definition core_point :: "point list \<Rightarrow> real \<Rightarrow> int \<Rightarrow> nat \<Rightarrow> bool" where
  "core_point data eps minPts a =
     (a < length data \<and> minPts \<le> int (length (eps_neighborhood data eps a)))"

inductive density_reachable :: "point list \<Rightarrow> real \<Rightarrow> int \<Rightarrow> nat \<Rightarrow> nat \<Rightarrow> bool"
  for data :: "point list" and eps :: real and minPts :: int and a :: nat where
  direct: "core_point data eps minPts a \<Longrightarrow> b \<in> set (eps_neighborhood data eps a) \<Longrightarrow>
           density_reachable data eps minPts a b"
| chain: "density_reachable data eps minPts a b \<Longrightarrow> core_point data eps minPts b \<Longrightarrow>
          c \<in> set (eps_neighborhood data eps b) \<Longrightarrow> density_reachable data eps minPts a c"

text \<open>
  A table of a run on \<open>data\<close>: the objects are those of the input, and every cache entry
  is about another point of the table and holds the outcome of the distance test.
\<close>

definition table_ok :: "point list \<Rightarrow> real \<Rightarrow> meta list \<Rightarrow> bool" where
  "table_ok data eps md =
     (map obj md = data \<and>
      (\<forall>j < length md. \<forall>k b.
         neighbors (md ! j) k = Some b \<longrightarrow>
         k < length md \<and> k \<noteq> j \<and> b = num_less (distance (data ! j) (data ! k)) eps))"

text \<open>
  How the labels of a table can differ after an expansion with identifier \<open>c\<close>: a label
  is kept, or was falsy and is now \<open>c\<close>.
\<close>

definition relabels :: "nat \<Rightarrow> meta list \<Rightarrow> meta list \<Rightarrow> bool" where
  "relabels c md md' =
     (length md' = length md \<and>
      (\<forall>j < length md.
         cluster (md' ! j) = cluster (md ! j) \<or>
         (falsy (cluster (md ! j)) \<and> cluster (md' ! j) = Cluster c)))"

text \<open>
  The state of the table when the scan has passed the first \<open>k\<close> points: among them,
  exactly the points that are not core points are labelled noise, and no other point is.
\<close>

definition scanned :: "point list \<Rightarrow> real \<Rightarrow> int \<Rightarrow> nat \<Rightarrow> meta list \<Rightarrow> bool" where
  "scanned data eps minPts k md =
     (table_ok data eps md \<and>
      (\<forall>j < length data.
         (cluster (md ! j) = Noise) = (j < k \<and> \<not> core_point data eps minPts j)))"

section \<open>The neighbor query in closed form\<close>

lemma set_neighbor_length [simp]: "length (set_neighbor md p t b) = length md"
  by (simp add: set_neighbor_def)

lemma set_neighbor_nth:
  "p < length md \<Longrightarrow> set_neighbor md p t b ! k =
     (if k = p then (md ! p)\<lparr>neighbors := (neighbors (md ! p))(t \<mapsto> b)\<rparr> else md ! k)"
  by (simp add: set_neighbor_def nth_list_update)

lemma set_neighbor_column:
  "p < length md \<Longrightarrow> t \<noteq> i \<Longrightarrow> neighbors (set_neighbor md p t b ! k) i = neighbors (md ! k) i"
  by (simp add: set_neighbor_nth)

lemma set_neighbor_obj [simp]:
  "p < length md \<Longrightarrow> obj (set_neighbor md p t b ! k) = obj (md ! k)"
  by (simp add: set_neighbor_nth)

lemma is_neighbor_set_neighbor:
  "p < length md \<Longrightarrow> t \<noteq> i \<Longrightarrow>
   is_neighbor (set_neighbor md p t b) p i eps = is_neighbor md p i eps"
  by (rule ext) (simp add: is_neighbor_def set_neighbor_column)

lemma is_computed_set_neighbor:
  "p < length md \<Longrightarrow> t \<noteq> i \<Longrightarrow> is_computed (set_neighbor md p t b) i = is_computed md i"
  by (rule ext) (simp add: is_computed_def set_neighbor_column)

lemma cache_after_skip:
  "\<not> is_computed md i t \<Longrightarrow> cache_after md p i eps (t # ts) = cache_after md p i eps ts"
  by (rule ext) (auto simp add: cache_after_def)

lemma cache_after_set_neighbor:
  assumes "p < length md" "is_computed md i t"
    and "b = num_less (distance (obj (md ! p)) (obj (md ! t))) eps"
  shows "cache_after (set_neighbor md p t b) p i eps ts = cache_after md p i eps (t # ts)"
proof (rule ext)
  fix k
  have ti: "t \<noteq> i" using assms(2) by (simp add: is_computed_def)
  show "cache_after (set_neighbor md p t b) p i eps ts k = cache_after md p i eps (t # ts) k"
    using assms(1,3) assms(2)
    by (auto simp add: cache_after_def is_computed_set_neighbor [OF assms(1) ti]
          set_neighbor_nth)
qed

lemma set_neighbor_overwrite:
  "p < length md \<Longrightarrow>
   (set_neighbor md p t b)[p := (set_neighbor md p t b ! p)\<lparr>neighbors := f\<rparr>]
     = md[p := (md ! p)\<lparr>neighbors := f\<rparr>]"
  by (simp add: set_neighbor_def)

lemma neighborhood_fold:
  "p < length md \<Longrightarrow>
   foldl (neighborhood_step p i eps) (neigh, md, cs) ts =
     (neigh @ filter (is_neighbor md p i eps) ts,
      md[p := (md ! p)\<lparr>neighbors := cache_after md p i eps ts\<rparr>],
      cs @ filter (is_computed md i) ts)"
proof (induction ts arbitrary: neigh md cs)
  case Nil
  have "cache_after md p i eps [] = neighbors (md ! p)"
    by (rule ext) (simp add: cache_after_def)
  then show ?case by simp
next
  case (Cons t ts)
  show ?case
  proof (cases "is_computed md i t")
    case False
    then have step: "neighborhood_step p i eps (neigh, md, cs) t =
        (if is_neighbor md p i eps t then neigh @ [t] else neigh, md, cs)"
      by (auto simp add: neighborhood_step_def is_neighbor_def is_computed_def)
    show ?thesis
      using Cons.prems False
      by (simp add: step Cons.IH cache_after_skip)
  next
    case True
    define b where "b = num_less (distance (obj (md ! p)) (obj (md ! t))) eps"
    have ti: "t \<noteq> i" using True by (simp add: is_computed_def)
    have step: "neighborhood_step p i eps (neigh, md, cs) t =
        (if b then neigh @ [t] else neigh, set_neighbor md p t b, cs @ [t])"
      using True by (auto simp add: neighborhood_step_def is_computed_def b_def)
    have nb: "is_neighbor md p i eps t = b"
      using True by (simp add: is_neighbor_def is_computed_def b_def)
    have len: "p < length (set_neighbor md p t b)" using Cons.prems by simp
    show ?thesis
      using Cons.prems True
      by (simp add: step Cons.IH [OF len] is_neighbor_set_neighbor [OF Cons.prems ti]
            is_computed_set_neighbor [OF Cons.prems ti] set_neighbor_overwrite nb
            cache_after_set_neighbor [OF Cons.prems True b_def])
  qed
qed

lemma neighborhood_closed:
  "p < length md \<Longrightarrow>
   neighborhood md p i eps =
     (filter (is_neighbor md p i eps) [0..<length md],
      md[p := (md ! p)\<lparr>neighbors := cache_after md p i eps [0..<length md]\<rparr>],
      filter (is_computed md i) [0..<length md])"
  by (simp add: neighborhood_def neighborhood_fold)

lemma neighborhood_unchanged:
  assumes "p < length md" and "neighborhood md p i eps = (neigh, md', cs)"
  shows "length md' = length md \<and>
         (\<forall>j < length md.
            visited (md' ! j) = visited (md ! j) \<and>
            cluster (md' ! j) = cluster (md ! j) \<and>
            obj (md' ! j) = obj (md ! j) \<and>
            (j \<noteq> p \<longrightarrow> neighbors (md' ! j) = neighbors (md ! j)))"
proof -
  have md': "md' = md[p := (md ! p)\<lparr>neighbors := cache_after md p i eps [0..<length md]\<rparr>]"
    using assms by (simp add: neighborhood_closed)
  show ?thesis
    unfolding md' using assms(1) by (auto simp add: nth_list_update)
qed

section \<open>Termination of the expansion\<close>

lemma unvisited_cong: "map visited md' = map visited md \<Longrightarrow> unvisited md' = unvisited md"
proof -
  assume h: "map visited md' = map visited md"
  have u: "\<And>xs. unvisited xs = length (filter Not (map visited xs))"
    by (simp add: unvisited_def comp_def)
  show ?thesis unfolding u by (simp only: h)
qed

lemma map_visited_update:
  "visited m = visited (md ! p) \<Longrightarrow> map visited (md[p := m]) = map visited md"
  by (cases "p < length md") (simp_all add: map_update list_update_same_conv list_update_beyond)

lemma map_visited_set_cluster [simp]: "map visited (set_cluster md p l) = map visited md"
  by (simp add: set_cluster_def map_visited_update)

lemma unvisited_set_cluster [simp]: "unvisited (set_cluster md p l) = unvisited md"
  by (rule unvisited_cong) simp

lemma set_cluster_length [simp]: "length (set_cluster md p l) = length md"
  by (simp add: set_cluster_def)

lemma set_visited_length [simp]: "length (set_visited md p) = length md"
  by (simp add: set_visited_def)

lemma neighborhood_length:
  "p < length md \<Longrightarrow> neighborhood md p i eps = (neigh, md', cs) \<Longrightarrow> length md' = length md"
  by (auto simp add: neighborhood_closed)

lemma neighborhood_map_visited:
  "p < length md \<Longrightarrow> neighborhood md p i eps = (neigh, md', cs) \<Longrightarrow>
   map visited md' = map visited md"
  by (auto simp add: neighborhood_closed map_visited_update)

lemma unvisited_set_visited:
  assumes "p < length md" "\<not> visited (md ! p)"
  shows "unvisited (set_visited md p) < unvisited md"
proof -
  have a: "md = take p md @ md ! p # drop (Suc p) md"
    using assms(1) by (simp add: id_take_nth_drop)
  have b: "set_visited md p = take p md @ (md ! p)\<lparr>visited := True\<rparr> # drop (Suc p) md"
    using assms(1) by (simp add: set_visited_def upd_conv_take_nth_drop)
  have "unvisited md = length (filter (\<lambda>m. \<not> visited m) (take p md)) + 1
           + length (filter (\<lambda>m. \<not> visited m) (drop (Suc p) md))"
    unfolding unvisited_def by (subst a) (simp add: assms(2))
  moreover have "unvisited (set_visited md p) = length (filter (\<lambda>m. \<not> visited m) (take p md))
           + length (filter (\<lambda>m. \<not> visited m) (drop (Suc p) md))"
    unfolding unvisited_def by (subst b) simp
  ultimately show ?thesis by simp
qed

lemma expandEach_dom_unvisited:
  "expandEach_dom (md, c, neigh, todo, minPts, eps) \<Longrightarrow>
   expandEach md c neigh todo minPts eps = Some md' \<Longrightarrow>
   length md' = length md \<and> unvisited md' \<le> unvisited md"
proof (induction md c neigh todo minPts eps arbitrary: md' rule: expandEach.pinduct)
  case (1 md c neigh minPts eps)
  then show ?case by (simp add: expandEach.psimps)
next
  case (2 md c neigh ni todo minPts eps)
  note eq = expandEach.psimps(2) [OF "2.hyps"]
  have inr: "\<not> length md \<le> ni"
    using "2.prems" by (auto simp add: eq split: if_splits)
  define md1 where "md1 = (if falsy (cluster (md ! ni)) then set_cluster md ni (Cluster c) else md)"
  have l1: "length md1 = length md" by (simp add: md1_def)
  have u1: "unvisited md1 = unvisited md" by (simp add: md1_def)
  show ?case
  proof (cases "visited (md1 ! ni)")
    case True
    then have "expandEach md1 c neigh todo minPts eps = Some md'"
      using "2.prems" inr by (simp add: eq md1_def [symmetric])
    from "2.IH"(4) [OF inr md1_def _ this] True show ?thesis by (simp add: l1 u1)
  next
    case False
    obtain nn md2 cs where nb: "neighborhood (set_visited md1 ni) ni ni eps = (nn, md2, cs)"
      by (cases "neighborhood (set_visited md1 ni) ni ni eps") auto
    have inr': "ni < length (set_visited md1 ni)" using inr by (simp add: l1)
    have l2: "length md2 = length md"
      using neighborhood_length [OF inr' nb] by (simp add: l1)
    have "unvisited md2 = unvisited (set_visited md1 ni)"
      by (rule unvisited_cong) (rule neighborhood_map_visited [OF inr' nb])
    also have "\<dots> < unvisited md1"
      using unvisited_set_visited [of ni md1] inr False by (simp add: l1)
    finally have u2: "unvisited md2 < unvisited md" by (simp add: u1)
    show ?thesis
    proof (cases "minPts < int (length nn)")
      case True
      obtain md3 where
        inner: "expandEach md2 c (us_union neigh nn) (us_union neigh nn) minPts eps = Some md3"
        and outer: "expandEach md3 c neigh todo minPts eps = Some md'"
        using "2.prems" inr False True
        by (auto simp add: eq md1_def [symmetric] nb split: option.splits)
      have a: "length md3 = length md2 \<and> unvisited md3 \<le> unvisited md2"
        by (rule "2.IH"(1) [OF inr md1_def False nb [symmetric] refl True inner])
      have b: "length md' = length md3 \<and> unvisited md' \<le> unvisited md3"
        by (rule "2.IH"(2) [OF inr md1_def False nb [symmetric] refl True inner outer])
      show ?thesis using a b l2 u2 by simp
    next
      case F: False
      have outer: "expandEach md2 c neigh todo minPts eps = Some md'"
        using "2.prems" inr False F by (simp add: eq md1_def [symmetric] nb)
      have "length md' = length md2 \<and> unvisited md' \<le> unvisited md2"
        by (rule "2.IH"(3) [OF inr md1_def False nb [symmetric] refl F outer])
      then show ?thesis using l2 u2 by simp
    qed
  qed
qed

lemma visit_decreases:
  assumes "\<not> length md \<le> ni"
    and "md1 = (if falsy (cluster (md ! ni)) then set_cluster md ni (Cluster c) else md)"
    and "\<not> visited (md1 ! ni)"
    and "(nn, y) = neighborhood (set_visited md1 ni) ni ni eps"
    and "(md2, cs) = y"
  shows "unvisited md2 < unvisited md"
proof -
  have l1: "length md1 = length md" by (simp add: assms(2))
  have u1: "unvisited md1 = unvisited md" by (simp add: assms(2))
  have nb: "neighborhood (set_visited md1 ni) ni ni eps = (nn, md2, cs)"
    using assms(4,5) by simp
  have inr': "ni < length (set_visited md1 ni)" using assms(1) by (simp add: l1)
  have "unvisited md2 = unvisited (set_visited md1 ni)"
    by (rule unvisited_cong) (rule neighborhood_map_visited [OF inr' nb])
  also have "\<dots> < unvisited md1"
    using unvisited_set_visited [of ni md1] assms(1,3) by (simp add: l1)
  finally show ?thesis by (simp add: u1)
qed

termination expandEach
proof (relation "(\<lambda>(md, c, neigh, todo, minPts, eps). unvisited md) <*mlex*>
                   measure (\<lambda>(md, c, neigh, todo, minPts, eps). length todo)", goal_cases)
  case 1
  show ?case by (simp add: wf_mlex)
next
  case (2 md c neigh ni todo minPts eps md1 nn y md2 cs)
  have "unvisited md2 < unvisited md"
    by (rule visit_decreases [OF 2(1) 2(2) 2(3) 2(4) 2(5)])
  then show ?case by (simp add: mlex_less)
next
  case (3 md c neigh ni todo minPts eps md1 nn y md2 cs md3)
  have "unvisited md2 < unvisited md"
    by (rule visit_decreases [OF 3(1) 3(2) 3(3) 3(4) 3(5)])
  moreover have "unvisited md3 \<le> unvisited md2"
    using expandEach_dom_unvisited [OF 3(8) 3(7)] by simp
  ultimately show ?case by (simp add: mlex_less)
next
  case (4 md c neigh ni todo minPts eps md1 nn y md2 cs)
  have "unvisited md2 < unvisited md"
    by (rule visit_decreases [OF 4(1) 4(2) 4(3) 4(4) 4(5)])
  then show ?case by (simp add: mlex_less)
next
  case (5 md c neigh ni todo minPts eps md1)
  have "unvisited md1 = unvisited md" by (simp add: 5(2))
  then show ?case by (simp add: mlex_leq)
qed

section \<open>The distance on objects without a length property\<close>

lemma reduce_items_plain:
  "''length'' \<notin> set (map fst p) \<Longrightarrow> reduce_items p = map (\<lambda>kv. (fst kv, Some (snd kv))) p"
proof -
  assume "''length'' \<notin> set (map fst p)"
  then have "map_of p ''length'' = None" by (simp add: map_of_eq_None_iff)
  then show ?thesis by (simp add: reduce_items_def array_length_def)
qed

lemma reduce_fold:
  "set (map fst p) \<subseteq> set (map fst q) \<Longrightarrow>
   foldl (reduce_step q) (Some a) (map (\<lambda>kv. (fst kv, Some (snd kv))) p) =
     Some (a + sum_list (map (\<lambda>kv. (the (map_of q (fst kv)) - snd kv)\<^sup>2) p))"
proof (induction p arbitrary: a)
  case Nil
  then show ?case by simp
next
  case (Cons kv p)
  from Cons.prems have "fst kv \<in> fst ` set q" by simp
  then obtain v where v: "map_of q (fst kv) = Some v"
    by (metis domD dom_map_of_conv_image_fst)
  have "reduce_step q (Some a) (fst kv, Some (snd kv)) = Some (a + (v - snd kv)\<^sup>2)"
    by (simp add: reduce_step_def v)
  with Cons show ?case by (simp add: v add.assoc)
qed

lemma sum_list_keys:
  assumes "distinct (map fst p)"
  shows "sum_list (map (\<lambda>kv. (the (map_of q (fst kv)) - snd kv)\<^sup>2) p) =
         (\<Sum>k \<in> set (map fst p). (the (map_of q k) - the (map_of p k))\<^sup>2)"
proof -
  have "map (\<lambda>kv. (the (map_of q (fst kv)) - snd kv)\<^sup>2) p =
        map (\<lambda>k. (the (map_of q k) - the (map_of p k))\<^sup>2) (map fst p)"
    using assms by (auto simp add: comp_def)
  then show ?thesis
    using assms by (simp only: sum_list_distinct_conv_sum_set)
qed

lemma distance_defined:
  assumes "''length'' \<notin> set (map fst p)"
    and "distinct (map fst p)" and "set (map fst p) \<subseteq> set (map fst q)"
  shows "distance p q =
     Some (sqrt (\<Sum>k \<in> set (map fst p). (the (map_of q k) - the (map_of p k))\<^sup>2))"
  using assms(2,3)
  by (simp add: distance_def reduce_items_plain [OF assms(1)] reduce_fold sum_list_keys
        del: set_map)

lemma distance_sym:
  assumes "''length'' \<notin> set (map fst p)"
    and "distinct (map fst p)" and "distinct (map fst q)"
    and "set (map fst p) = set (map fst q)"
  shows "distance p q = distance q p"
proof -
  have q: "''length'' \<notin> set (map fst q)" using assms(1,4) by simp
  have "(\<Sum>k \<in> set (map fst p). (the (map_of q k) - the (map_of p k))\<^sup>2) =
        (\<Sum>k \<in> set (map fst q). (the (map_of p k) - the (map_of q k))\<^sup>2)"
    unfolding assms(4) by (simp add: power2_commute)
  then show ?thesis
    using assms(2,3,4)
    by (simp add: distance_defined [OF assms(1)] distance_defined [OF q] del: set_map)
qed

section \<open>Invariants of the expansion\<close>

lemma expandEach_Some_induct [consumes 1, case_names Nil Visited Expand NoExpand]:
  assumes "expandEach md c neigh todo minPts eps = Some md'"
    and "\<And>md neigh. Q md neigh [] md"
    and "\<And>md neigh ni todo md1 md'.
           ni < length md \<Longrightarrow>
           md1 = (if falsy (cluster (md ! ni)) then set_cluster md ni (Cluster c) else md) \<Longrightarrow>
           visited (md1 ! ni) \<Longrightarrow>
           expandEach md1 c neigh todo minPts eps = Some md' \<Longrightarrow>
           Q md1 neigh todo md' \<Longrightarrow> Q md neigh (ni # todo) md'"
    and "\<And>md neigh ni todo md1 nn md2 cs md3 md'.
           ni < length md \<Longrightarrow>
           md1 = (if falsy (cluster (md ! ni)) then set_cluster md ni (Cluster c) else md) \<Longrightarrow>
           \<not> visited (md1 ! ni) \<Longrightarrow>
           neighborhood (set_visited md1 ni) ni ni eps = (nn, md2, cs) \<Longrightarrow>
           minPts < int (length nn) \<Longrightarrow>
           expandEach md2 c (us_union neigh nn) (us_union neigh nn) minPts eps = Some md3 \<Longrightarrow>
           Q md2 (us_union neigh nn) (us_union neigh nn) md3 \<Longrightarrow>
           expandEach md3 c neigh todo minPts eps = Some md' \<Longrightarrow>
           Q md3 neigh todo md' \<Longrightarrow> Q md neigh (ni # todo) md'"
    and "\<And>md neigh ni todo md1 nn md2 cs md'.
           ni < length md \<Longrightarrow>
           md1 = (if falsy (cluster (md ! ni)) then set_cluster md ni (Cluster c) else md) \<Longrightarrow>
           \<not> visited (md1 ! ni) \<Longrightarrow>
           neighborhood (set_visited md1 ni) ni ni eps = (nn, md2, cs) \<Longrightarrow>
           \<not> minPts < int (length nn) \<Longrightarrow>
           expandEach md2 c neigh todo minPts eps = Some md' \<Longrightarrow>
           Q md2 neigh todo md' \<Longrightarrow> Q md neigh (ni # todo) md'"
  shows "Q md neigh todo md'"
  using assms
proof (induction md c neigh todo minPts eps arbitrary: md' rule: expandEach.induct)
  case (1 md c neigh minPts eps)
  then show ?case by simp
next
  case (2 md c neigh ni todo minPts eps)
  note N = "2.prems"(2) and Vi = "2.prems"(3) and Ex = "2.prems"(4) and No = "2.prems"(5)
  have inr: "\<not> length md \<le> ni"
    using "2.prems"(1) by (auto split: if_splits)
  then have lt: "ni < length md" by simp
  define md1 where "md1 = (if falsy (cluster (md ! ni)) then set_cluster md ni (Cluster c) else md)"
  show ?case
  proof (cases "visited (md1 ! ni)")
    case True
    then have r: "expandEach md1 c neigh todo minPts eps = Some md'"
      using "2.prems"(1) inr by (simp add: md1_def [symmetric])
    have "Q md1 neigh todo md'"
      using "2.IH"(4) [OF inr md1_def _ r N Vi Ex No] True by simp
    then show ?thesis by (rule Vi [OF lt md1_def True r])
  next
    case False
    obtain nn md2 cs where nb: "neighborhood (set_visited md1 ni) ni ni eps = (nn, md2, cs)"
      by (cases "neighborhood (set_visited md1 ni) ni ni eps") auto
    show ?thesis
    proof (cases "minPts < int (length nn)")
      case True
      obtain md3 where
        inner: "expandEach md2 c (us_union neigh nn) (us_union neigh nn) minPts eps = Some md3"
        and outer: "expandEach md3 c neigh todo minPts eps = Some md'"
        using "2.prems"(1) inr False True
        by (auto simp add: md1_def [symmetric] nb split: option.splits)
      have q1: "Q md2 (us_union neigh nn) (us_union neigh nn) md3"
        by (rule "2.IH"(1) [OF inr md1_def False nb [symmetric] refl True inner N Vi Ex No])
      have q2: "Q md3 neigh todo md'"
        by (rule "2.IH"(2) [OF inr md1_def False nb [symmetric] refl True inner outer N Vi Ex No])
      show ?thesis by (rule Ex [OF lt md1_def False nb True inner q1 outer q2])
    next
      case F: False
      have outer: "expandEach md2 c neigh todo minPts eps = Some md'"
        using "2.prems"(1) inr False F by (simp add: md1_def [symmetric] nb)
      have q: "Q md2 neigh todo md'"
        by (rule "2.IH"(3) [OF inr md1_def False nb [symmetric] refl F outer N Vi Ex No])
      show ?thesis by (rule No [OF lt md1_def False nb F outer q])
    qed
  qed
qed

text \<open>A relation between tables that the expansion's elementary updates generate.\<close>

lemma expandEach_relates:
  assumes "expandEach md c neigh todo minPts eps = Some md'"
    and refl: "\<And>m. R m m"
    and trans: "\<And>a b d. R a b \<Longrightarrow> R b d \<Longrightarrow> R a d"
    and A: "\<And>m ni. ni < length m \<Longrightarrow> falsy (cluster (m ! ni)) \<Longrightarrow>
              R m (set_cluster m ni (Cluster c))"
    and V: "\<And>m ni nn m2 cs. ni < length m \<Longrightarrow> \<not> visited (m ! ni) \<Longrightarrow>
              neighborhood (set_visited m ni) ni ni eps = (nn, m2, cs) \<Longrightarrow> R m m2"
  shows "R md md'"
  using assms(1)
proof (induction rule: expandEach_Some_induct)
  case (Nil md neigh)
  show ?case by (rule refl)
next
  case (Visited md neigh ni todo md1 md')
  have "R md md1" using A [OF Visited(1)] refl by (simp add: Visited(2))
  then show ?case using Visited.IH by (rule trans)
next
  case (Expand md neigh ni todo md1 nn md2 cs md3 md')
  have l1: "length md1 = length md" by (simp add: Expand(2))
  have "R md md1" using A [OF Expand(1)] refl by (simp add: Expand(2))
  moreover have "R md1 md2" using V [OF _ Expand(3,4)] Expand(1) by (simp add: l1)
  ultimately have "R md md2" by (rule trans)
  then have "R md md3" using Expand.IH(1) by (rule trans)
  then show ?case using Expand.IH(2) by (rule trans)
next
  case (NoExpand md neigh ni todo md1 nn md2 cs md')
  have l1: "length md1 = length md" by (simp add: NoExpand(2))
  have "R md md1" using A [OF NoExpand(1)] refl by (simp add: NoExpand(2))
  moreover have "R md1 md2" using V [OF _ NoExpand(3,4)] NoExpand(1) by (simp add: l1)
  ultimately have "R md md2" by (rule trans)
  then show ?case using NoExpand.IH by (rule trans)
qed

section \<open>Evaluation on concrete inputs\<close>

text \<open>One-dimensional points: the distance is the absolute difference.\<close>

lemma distance_1d: "k \<noteq> ''length'' \<Longrightarrow> distance [(k, a)] [(k, b)] = Some \<bar>b - a\<bar>"
  by (simp add: distance_def reduce_items_def array_length_def reduce_step_def)

lemmas ev = run_def scan_def scan_step_def where_unvisited_def new_meta_def neighborhood_def
  neighborhood_step_def expandCluster_def set_visited_def set_cluster_def set_neighbor_def
  falsy_def us_union_def uniq_def num_less_def distance_1d upt_rec Let_def

lemmas evc = prod.case_cong_weak option.case_cong_weak let_weak_cong

section \<open>Properties of the neighbor query\<close>

text \<open>
  Claim C10. A call of the neighbor query changes nothing but the \<open>neighbors\<close> cache of
  the target point \<open>pt\<close>: the table keeps its length, every point keeps its \<open>visited\<close>
  flag, its \<open>cluster\<close> label and its \<open>obj\<close> reference, and every point other than the
  target keeps its cache.
\<close>

theorem neighborhood_frame:
  assumes "p < length md" and "neighborhood md p i eps = (neigh, md', cs)"
  shows "length md' = length md \<and>
         (\<forall>j < length md.
            visited (md' ! j) = visited (md ! j) \<and>
            cluster (md' ! j) = cluster (md ! j) \<and>
            obj (md' ! j) = obj (md ! j) \<and>
            (j \<noteq> p \<longrightarrow> neighbors (md' ! j) = neighbors (md ! j)))"
  using assms by (rule neighborhood_unchanged)

theorem neighborhood_frame_witness:
  "(0::nat) < length (map new_meta [[(''x'', 0)], [(''x'', 1)]]) \<and>
   neighborhood (map new_meta [[(''x'', 0)], [(''x'', 1)]]) 0 0 2 =
     ([0, 1],
      [\<lparr>visited = False, neighbors = [1 \<mapsto> True], cluster = Unassigned, obj = [(''x'', 0)]\<rparr>,
       \<lparr>visited = False, neighbors = Map.empty, cluster = Unassigned, obj = [(''x'', 1)]\<rparr>],
      [1]) \<and>
   neighbors ([\<lparr>visited = False, neighbors = [1 \<mapsto> True], cluster = Unassigned, obj = [(''x'', 0)]\<rparr>,
       \<lparr>visited = False, neighbors = Map.empty, cluster = Unassigned, obj = [(''x'', 1)]\<rparr>] ! 1)
     = neighbors (map new_meta [[(''x'', 0)], [(''x'', 1)]] ! 1)"
proof -
  have h1: "(0::nat) < length (map new_meta [[(''x'', 0)], [(''x'', 1)]])" by simp
  have h2: "neighborhood (map new_meta [[(''x'', 0)], [(''x'', 1)]]) 0 0 2 =
     ([0, 1],
      [\<lparr>visited = False, neighbors = [1 \<mapsto> True], cluster = Unassigned, obj = [(''x'', 0)]\<rparr>,
       \<lparr>visited = False, neighbors = Map.empty, cluster = Unassigned, obj = [(''x'', 1)]\<rparr>],
      [1])"
    by (simp add: ev cong: evc)
  have "1 < length (map new_meta [[(''x'', 0)], [(''x'', 1)]])" by simp
  with neighborhood_frame [OF h1 h2] h1 h2 show ?thesis by blast
qed

lemma table_sym:
  assumes "well_formed (map obj md) \<and> plain_objects (map obj md)"
    and "i < length md" and "j < length md"
  shows "distance (obj (md ! i)) (obj (md ! j)) = distance (obj (md ! j)) (obj (md ! i))"
proof -
  have m: "obj (md ! i) \<in> set (map obj md)" "obj (md ! j) \<in> set (map obj md)"
    using assms(2,3) by simp_all
  have "''length'' \<notin> set (map fst (obj (md ! i)))"
    using assms(1) m(1) unfolding plain_objects_def by blast
  moreover have "distinct (map fst (obj (md ! i)))" "distinct (map fst (obj (md ! j)))"
    using assms(1) m unfolding well_formed_def by blast+
  moreover have "set (map fst (obj (md ! i))) = set (map fst (obj (md ! j)))"
    using assms(1) m unfolding well_formed_def by blast
  ultimately show ?thesis by (rule distance_sym)
qed

lemma is_neighbor_agrees:
  assumes "well_formed (map obj md) \<and> plain_objects (map obj md)"
    and "cache_agrees md eps" and "i < length md" and "j < length md"
    and "neighbors (md ! i) i = None"
  shows "is_neighbor md i i eps j =
         (j = i \<or> num_less (distance (obj (md ! i)) (obj (md ! j))) eps)"
proof (cases "j = i")
  case True
  then show ?thesis using assms(5) by (simp add: is_neighbor_def)
next
  case False
  show ?thesis
  proof (cases "neighbors (md ! j) i")
    case None
    then show ?thesis using False by (simp add: is_neighbor_def)
  next
    case (Some b)
    then have "b = num_less (distance (obj (md ! j)) (obj (md ! i))) eps"
      using assms(2,3,4) by (simp add: cache_agrees_def)
    then have "b = num_less (distance (obj (md ! i)) (obj (md ! j))) eps"
      by (simp add: table_sym [OF assms(1,3,4)])
    then show ?thesis using False Some by (auto simp add: is_neighbor_def)
  qed
qed

text \<open>
  Where the contract of the neighbor query holds: on objects that share their keys and have no
  property \<open>length\<close>, in a table where no point has a cache entry for itself (\<open>run\<close>
  creates the caches empty and \<open>neighborhood\<close> writes an entry only at an index other
  than the target's own) and every cached entry agrees with the test, the neighbor query
  of a target returns exactly the indices \<open>j\<close> with \<open>distance(target, table[j]) < eps\<close>
  together with the target's own index, without duplicates and in ascending order, for
  every \<open>eps\<close>.
\<close>

lemma neighborhood_result_plain:
  assumes "well_formed (map obj md)" and "plain_objects (map obj md)"
    and "\<forall>j < length md. neighbors (md ! j) j = None"
    and "cache_agrees md eps" and "i < length md"
    and "neighborhood md i i eps = (neigh, md', cs)"
  shows "set neigh = {j. j < length md \<and>
                        (j = i \<or> num_less (distance (obj (md ! i)) (obj (md ! j))) eps)}
         \<and> distinct neigh \<and> sorted neigh"
proof -
  have wf: "well_formed (map obj md) \<and> plain_objects (map obj md)" using assms(1,2) by simp
  have self: "neighbors (md ! i) i = None" using assms(3,5) by simp
  have n: "neigh = filter (is_neighbor md i i eps) [0..<length md]"
    using assms(5,6) by (simp add: neighborhood_closed)
  have "set neigh = {j. j < length md \<and> is_neighbor md i i eps j}"
    unfolding n by auto
  also have "\<dots> = {j. j < length md \<and>
                        (j = i \<or> num_less (distance (obj (md ! i)) (obj (md ! j))) eps)}"
    using is_neighbor_agrees [OF wf assms(4,5) _ self] by blast
  finally show ?thesis unfolding n by (simp add: sorted_wrt_filter)
qed

text \<open>The distance from an object that \<open>_.reduce\<close> takes for an array of length 1 or 0.\<close>

lemma distance_length_1:
  "distance [(''0'', a), (''length'', 1)] [(''0'', b), (''length'', l)] = Some \<bar>b - a\<bar>"
  by (simp add: distance_def reduce_items_def array_length_def reduce_step_def index_key.simps)

lemma distance_length_0: "distance [(''0'', a), (''length'', 0)] q = Some 0"
  by (simp add: distance_def reduce_items_def array_length_def)

text \<open>
  Claim C4. The claim: when the points share their dimension set and every cached entry
  agrees with the test \<open>distance < eps\<close>, the neighbor query returns the indices \<open>j\<close>
  with \<open>distance(target, table[j]) < eps\<close> and the target's own index, and no other.
  Take the four objects \<open>{0: 0, length: 1}\<close>, \<open>{0: 100, length: 0}\<close>,
  \<open>{0: 1, length: 1}\<close>, \<open>{0: 0, length: 1}\<close>, which share their keys, with
  \<open>eps = 0.5\<close> and \<open>minPts = 2\<close>. \<open>_.reduce\<close> takes them for arrays: the distance from
  the second object to the third is 0, the distance from the third to the second is 99.
  After the first scan step, the query of point 1 at its scan turn computes the first of
  the two, returns \<open>[1, 2]\<close> and records \<open>true\<close>; the expansion then visits point 2 and
  queries it on the table \<open>M\<close>, and this query reads the entry and returns \<open>[1, 2]\<close>
  too. In both tables no point has an entry for itself and every entry is the outcome of
  the test its owner computed. The second query returns point 1, at distance 99 from its
  target; and with the distance taken from the listed point to the target instead, the
  first query returns point 2, at distance 99.
\<close>

theorem neighbor_query_returns_far_point:
  "well_formed [[(''0'', 0), (''length'', 1)], [(''0'', 100), (''length'', 0)],
                [(''0'', 1), (''length'', 1)], [(''0'', 0), (''length'', 1)]] \<and>
   (let M = [\<lparr>visited = True, neighbors = [1 \<mapsto> False, 2 \<mapsto> False, 3 \<mapsto> True],
                cluster = Cluster 1, obj = [(''0'', 0), (''length'', 1)]\<rparr>,
             \<lparr>visited = True, neighbors = [2 \<mapsto> True],
                cluster = Cluster 2, obj = [(''0'', 100), (''length'', 0)]\<rparr>,
             \<lparr>visited = True, neighbors = Map.empty,
                cluster = Cluster 2, obj = [(''0'', 1), (''length'', 1)]\<rparr>,
             \<lparr>visited = True, neighbors = [1 \<mapsto> False, 2 \<mapsto> False],
                cluster = Cluster 1, obj = [(''0'', 0), (''length'', 1)]\<rparr>]
    in (case scan (1/2) 2
               (map new_meta [[(''0'', 0), (''length'', 1)], [(''0'', 100), (''length'', 0)],
                              [(''0'', 1), (''length'', 1)], [(''0'', 0), (''length'', 1)]], 0)
               [(0, 0)] of
          None \<Rightarrow> False
        | Some (S, c) \<Rightarrow>
            (case neighborhood (set_visited S 1) 1 1 (1/2) of
               (neigh, T, cs) \<Rightarrow>
                 c = 1 \<and>
                 map (\<lambda>j. neighbors (set_visited S 1 ! j) j) [0..<length S]
                   = [None, None, None, None] \<and>
                 cache_agrees (set_visited S 1) (1/2) \<and>
                 neigh = [1, 2] \<and>
                 set_visited (set_cluster (set_cluster T 1 (Cluster 2)) 2 (Cluster 2)) 2 = M)) \<and>
       map (\<lambda>j. neighbors (M ! j) j) [0..<length M] = [None, None, None, None] \<and>
       cache_agrees M (1/2) \<and>
       fst (neighborhood M 2 2 (1/2)) = [1, 2] \<and>
       distance (obj (M ! 1)) (obj (M ! 2)) = Some 0 \<and>
       distance (obj (M ! 2)) (obj (M ! 1)) = Some 99 \<and>
       \<not> num_less (distance (obj (M ! 2)) (obj (M ! 1))) (1/2))"
proof -
  let ?D = "[[(''0'', 0), (''length'', 1)], [(''0'', 100), (''length'', 0)],
             [(''0'', 1), (''length'', 1)], [(''0'', 0), (''length'', 1::real)]]"
  let ?M = "[\<lparr>visited = True, neighbors = [1 \<mapsto> False, 2 \<mapsto> False, 3 \<mapsto> True],
                cluster = Cluster 1, obj = [(''0'', 0), (''length'', 1)]\<rparr>,
             \<lparr>visited = True, neighbors = [2 \<mapsto> True],
                cluster = Cluster 2, obj = [(''0'', 100), (''length'', 0)]\<rparr>,
             \<lparr>visited = True, neighbors = Map.empty,
                cluster = Cluster 2, obj = [(''0'', 1), (''length'', 1)]\<rparr>,
             \<lparr>visited = True, neighbors = [1 \<mapsto> False, 2 \<mapsto> False],
                cluster = Cluster 1, obj = [(''0'', 0), (''length'', 1::real)]\<rparr>]"
  have w: "well_formed ?D" by (simp add: well_formed_def)
  have r: "(case scan (1/2) 2 (map new_meta ?D, 0) [(0, 0)] of
          None \<Rightarrow> False
        | Some (S, c) \<Rightarrow>
            (case neighborhood (set_visited S 1) 1 1 (1/2) of
               (neigh, T, cs) \<Rightarrow>
                 c = 1 \<and>
                 map (\<lambda>j. neighbors (set_visited S 1 ! j) j) [0..<length S]
                   = [None, None, None, None] \<and>
                 cache_agrees (set_visited S 1) (1/2) \<and>
                 neigh = [1, 2] \<and>
                 set_visited (set_cluster (set_cluster T 1 (Cluster 2)) 2 (Cluster 2)) 2 = ?M))"
    by (simp add: ev distance_length_1 distance_length_0 numeral_2_eq_2 numeral_3_eq_3
          cache_agrees_def All_less_Suc cong: evc)
  have s: "map (\<lambda>j. neighbors (?M ! j) j) [0..<length ?M] = [None, None, None, None]"
    by (simp add: upt_rec)
  have c: "cache_agrees ?M (1/2)"
    by (simp add: cache_agrees_def All_less_Suc num_less_def distance_length_1 distance_length_0)
  have q: "fst (neighborhood ?M 2 2 (1/2)) = [1, 2]"
    by (simp add: ev distance_length_1 distance_length_0 cong: evc)
  have d0: "distance (obj (?M ! 1)) (obj (?M ! 2)) = Some 0"
    by (simp add: distance_length_0)
  have d: "distance (obj (?M ! 2)) (obj (?M ! 1)) = Some 99"
    by (simp add: distance_length_1)
  have n: "\<not> num_less (distance (obj (?M ! 2)) (obj (?M ! 1))) (1/2)"
    by (simp add: distance_length_1 num_less_def)
  show ?thesis unfolding Let_def using w r s c q d0 d n by blast
qed

text \<open>
  The entry that misleads the query, read off the theorem: point 1 recorded \<open>true\<close> for
  index 2, which is the outcome of its own test, and the query of point 2 returns index 1.
\<close>

theorem neighbor_query_returns_far_point_witness:
  "(let M = [\<lparr>visited = True, neighbors = [1 \<mapsto> False, 2 \<mapsto> False, 3 \<mapsto> True],
                cluster = Cluster 1, obj = [(''0'', 0), (''length'', 1)]\<rparr>,
             \<lparr>visited = True, neighbors = [2 \<mapsto> True],
                cluster = Cluster 2, obj = [(''0'', 100), (''length'', 0)]\<rparr>,
             \<lparr>visited = True, neighbors = Map.empty,
                cluster = Cluster 2, obj = [(''0'', 1), (''length'', 1)]\<rparr>,
             \<lparr>visited = True, neighbors = [1 \<mapsto> False, 2 \<mapsto> False],
                cluster = Cluster 1, obj = [(''0'', 0), (''length'', 1)]\<rparr>]
    in neighbors (M ! 1) 2 = Some True \<and>
       num_less (distance (obj (M ! 1)) (obj (M ! 2))) (1/2) \<and>
       1 \<in> set (fst (neighborhood M 2 2 (1/2))))"
proof -
  let ?M = "[\<lparr>visited = True, neighbors = [1 \<mapsto> False, 2 \<mapsto> False, 3 \<mapsto> True],
                cluster = Cluster 1, obj = [(''0'', 0), (''length'', 1)]\<rparr>,
             \<lparr>visited = True, neighbors = [2 \<mapsto> True],
                cluster = Cluster 2, obj = [(''0'', 100), (''length'', 0)]\<rparr>,
             \<lparr>visited = True, neighbors = Map.empty,
                cluster = Cluster 2, obj = [(''0'', 1), (''length'', 1)]\<rparr>,
             \<lparr>visited = True, neighbors = [1 \<mapsto> False, 2 \<mapsto> False],
                cluster = Cluster 1, obj = [(''0'', 0), (''length'', 1::real)]\<rparr>]"
  have ca: "cache_agrees ?M (1/2)" and q: "fst (neighborhood ?M 2 2 (1/2)) = [1, 2]"
    using neighbor_query_returns_far_point unfolding Let_def by blast+
  have e: "neighbors (?M ! 1) 2 = Some True" by simp
  have l: "1 < length ?M" "2 < length ?M" by simp_all
  have "True = num_less (distance (obj (?M ! 1)) (obj (?M ! 2))) (1/2)"
    using ca l e unfolding cache_agrees_def by blast
  then have t: "num_less (distance (obj (?M ! 1)) (obj (?M ! 2))) (1/2)" by simp
  have m: "1 \<in> set (fst (neighborhood ?M 2 2 (1/2)))" unfolding q by simp
  show ?thesis unfolding Let_def using e t m by blast
qed

text \<open>
  Claim C2, amended. When the query of a target \<open>A\<close> computes the distance to a point
  \<open>B\<close>, the entry of \<open>A\<close>'s cache for \<open>B\<close> holds the outcome of the test right after
  the call, while \<open>B\<close>'s entry for \<open>A\<close> stays unset; and in any later table in which
  \<open>A\<close>'s entry for \<open>B\<close> is recorded, the query of \<open>B\<close> does not compute the distance to
  \<open>A\<close> again.
\<close>

theorem distance_cached_for_target:
  assumes "i < length md" and "neighborhood md i i eps = (neigh, md', cs)" and "ti \<in> set cs"
  shows "ti < length md \<and> ti \<noteq> i \<and>
         neighbors (md' ! i) ti = Some (num_less (distance (obj (md ! i)) (obj (md ! ti))) eps) \<and>
         neighbors (md' ! ti) i = None \<and>
         (\<forall>m. length m = length md \<and> neighbors (m ! i) ti \<noteq> None \<longrightarrow>
              i \<notin> set (snd (snd (neighborhood m ti ti eps))))"
proof -
  have md': "md' = md[i := (md ! i)\<lparr>neighbors := cache_after md i i eps [0..<length md]\<rparr>]"
    and cs: "cs = filter (is_computed md i) [0..<length md]"
    using assms(1,2) by (simp_all add: neighborhood_closed)
  have ti: "ti < length md" "is_computed md i ti"
    using assms(3) unfolding cs by simp_all
  then have ne: "ti \<noteq> i" and un: "neighbors (md ! ti) i = None"
    by (simp_all add: is_computed_def)
  have a: "neighbors (md' ! i) ti = Some (num_less (distance (obj (md ! i)) (obj (md ! ti))) eps)"
    unfolding md' using assms(1) ti by (simp add: cache_after_def)
  have b: "neighbors (md' ! ti) i = None"
    unfolding md' using ne un by simp
  have c: "i \<notin> set (snd (snd (neighborhood m ti ti eps)))"
    if "length m = length md \<and> neighbors (m ! i) ti \<noteq> None" for m
  proof -
    have "ti < length m" using that ti(1) by simp
    then show ?thesis using that by (simp add: neighborhood_closed is_computed_def)
  qed
  show ?thesis using ti(1) ne a b c by blast
qed

theorem distance_cached_for_target_witness:
  "neighborhood (set_visited (map new_meta [[(''x'', 0)], [(''x'', 1)]]) 0) 0 0 2 =
     ([0, 1],
      [\<lparr>visited = True, neighbors = [1 \<mapsto> True], cluster = Unassigned, obj = [(''x'', 0)]\<rparr>,
       \<lparr>visited = False, neighbors = Map.empty, cluster = Unassigned, obj = [(''x'', 1)]\<rparr>],
      [1]) \<and>
   neighbors
     ([\<lparr>visited = True, neighbors = [1 \<mapsto> True], cluster = Unassigned, obj = [(''x'', 0)]\<rparr>,
       \<lparr>visited = False, neighbors = Map.empty, cluster = Unassigned, obj = [(''x'', 1)]\<rparr>] ! 0) 1
     = Some True \<and>
   0 \<notin> set (snd (snd (neighborhood
      [\<lparr>visited = True, neighbors = [1 \<mapsto> True], cluster = Unassigned, obj = [(''x'', 0)]\<rparr>,
       \<lparr>visited = False, neighbors = Map.empty, cluster = Unassigned, obj = [(''x'', 1)]\<rparr>] 1 1 2)))"
proof -
  define MD where "MD = set_visited (map new_meta [[(''x'', 0)], [(''x'', 1::real)]]) 0"
  define MD' where "MD' =
      [\<lparr>visited = True, neighbors = [1 \<mapsto> True], cluster = Unassigned, obj = [(''x'', 0)]\<rparr>,
       \<lparr>visited = False, neighbors = Map.empty, cluster = Unassigned, obj = [(''x'', 1::real)]\<rparr>]"
  have h1: "0 < length MD" by (simp add: MD_def set_visited_def)
  have h2: "neighborhood MD 0 0 2 = ([0, 1], MD', [1])"
    by (simp add: MD_def MD'_def ev cong: evc)
  have h3: "1 \<in> set [1::nat]" by simp
  have l: "length MD' = length MD" by (simp add: MD_def MD'_def set_visited_def)
  have e: "neighbors (MD' ! 0) 1 = Some True" by (simp add: MD'_def)
  from distance_cached_for_target [OF h1 h2 h3]
  have g: "length MD' = length MD \<and> neighbors (MD' ! 0) 1 \<noteq> None \<longrightarrow>
           0 \<notin> set (snd (snd (neighborhood MD' 1 1 2)))"
    by blast
  have "0 \<notin> set (snd (snd (neighborhood MD' 1 1 2)))"
    using g l e by auto
  then show ?thesis using h2 e unfolding MD_def MD'_def by simp
qed

text \<open>
  Claim C2 as stated fails: the first query of the run on two points computes the
  distance from point 0 to point 1 and records it in the cache of point 0 only.
\<close>

theorem reverse_entry_left_unset:
  "neighborhood (set_visited (map new_meta [[(''x'', 0)], [(''x'', 1)]]) 0) 0 0 2 =
     ([0, 1],
      [\<lparr>visited = True, neighbors = [1 \<mapsto> True], cluster = Unassigned, obj = [(''x'', 0)]\<rparr>,
       \<lparr>visited = False, neighbors = Map.empty, cluster = Unassigned, obj = [(''x'', 1)]\<rparr>],
      [1]) \<and>
   neighbors
     ([\<lparr>visited = True, neighbors = [1 \<mapsto> True], cluster = Unassigned, obj = [(''x'', 0)]\<rparr>,
       \<lparr>visited = False, neighbors = Map.empty, cluster = Unassigned, obj = [(''x'', 1)]\<rparr>] ! 1) 0
     = None"
  by (simp add: ev cong: evc)

text \<open>
  The other half of claim C2 as stated: one computation per unordered pair in a run. On
  the points \<open>0, 1, 2\<close> of a line with \<open>eps = 1.5\<close> and \<open>minPts = 2\<close>, the first scan
  step ends with the outcome for the pair of points 1 and 2 recorded in the cache of
  point 1, which computed it when the expansion visited it; the query of the next scan
  step, again at point 1, looks into the cache of point 2 only and computes it again.
\<close>

lemma pair_computed_twice:
  "(case scan (3/2) 2 (map new_meta [[(''x'', 0)], [(''x'', 1)], [(''x'', 2)]], 0) [(0, 0)] of
      None \<Rightarrow> False
    | Some (md, c) \<Rightarrow>
        neighbors (md ! 1) 2 = Some True \<and>
        snd (snd (neighborhood (set_visited md 1) 1 1 (3/2))) = [2])"
  by (simp add: ev cong: evc)

section \<open>Labels along a run\<close>

subsection \<open>Labels\<close>

lemma relabels_refl: "relabels c m m"
  by (simp add: relabels_def)

lemma relabels_trans: "relabels c a b \<Longrightarrow> relabels c b d \<Longrightarrow> relabels c a d"
  unfolding relabels_def by (metis (no_types, lifting))

lemma relabels_set_cluster:
  "ni < length m \<Longrightarrow> falsy (cluster (m ! ni)) \<Longrightarrow> relabels c m (set_cluster m ni (Cluster c))"
  by (simp add: relabels_def set_cluster_def nth_list_update)

lemma set_visited_cluster [simp]: "cluster (set_visited m p ! j) = cluster (m ! j)"
  by (cases "p < length m") (simp_all add: set_visited_def nth_list_update list_update_beyond)

lemma set_visited_obj [simp]: "map obj (set_visited m p) = map obj m"
  by (cases "p < length m") (simp_all add: set_visited_def map_update list_update_same_conv list_update_beyond)

lemma set_visited_neighbors [simp]: "neighbors (set_visited m p ! j) = neighbors (m ! j)"
  by (cases "p < length m") (simp_all add: set_visited_def nth_list_update list_update_beyond)

lemma relabels_visit:
  assumes "ni < length m" and "neighborhood (set_visited m ni) ni ni eps = (nn, m2, cs)"
  shows "relabels c m m2"
proof -
  have "ni < length (set_visited m ni)" using assms(1) by simp
  from neighborhood_unchanged [OF this assms(2)] show ?thesis
    by (simp add: relabels_def)
qed

lemma expandEach_relabels:
  assumes "expandEach md c neigh todo minPts eps = Some md'"
  shows "relabels c md md'"
  using assms
proof (rule expandEach_relates [where R = "relabels c"])
  show "relabels c m m" for m by (rule relabels_refl)
  show "relabels c a b \<Longrightarrow> relabels c b d \<Longrightarrow> relabels c a d" for a b d
    by (rule relabels_trans)
  show "ni < length m \<Longrightarrow> falsy (cluster (m ! ni)) \<Longrightarrow>
        relabels c m (set_cluster m ni (Cluster c))" for m ni
    by (rule relabels_set_cluster)
  show "ni < length m \<Longrightarrow> \<not> visited (m ! ni) \<Longrightarrow>
        neighborhood (set_visited m ni) ni ni eps = (nn, m2, cs) \<Longrightarrow> relabels c m m2"
    for m ni nn m2 cs
    by (rule relabels_visit)
qed

lemma relabels_noise:
  "relabels c md md' \<Longrightarrow> j < length md \<Longrightarrow>
   (cluster (md' ! j) = Noise) = (cluster (md ! j) = Noise)"
  unfolding relabels_def by (auto simp add: falsy_def)

subsection \<open>Noise labels\<close>

lemma scan_step_None [simp]: "scan_step eps minPts None pti = None"
  by (simp add: scan_step_def)

lemma foldl_scan_step_None [simp]: "foldl (scan_step eps minPts) None pts = None"
  by (induction pts) simp_all

lemma scan_Cons:
  "scan eps minPts st (pti # pts) =
     (case scan_step eps minPts (Some st) pti of None \<Rightarrow> None | Some st' \<Rightarrow> scan eps minPts st' pts)"
  by (simp add: scan_def split: option.splits)

lemma scan_Nil [simp]: "scan eps minPts st [] = Some st"
  by (simp add: scan_def)

lemma scan_step_cases:
  assumes "scan_step eps minPts (Some (md, c)) (p, i) = Some (md', c')"
  obtains (noise) neigh md2 cs where
      "neighborhood (set_visited md p) p i eps = (neigh, md2, cs)"
      "int (length neigh) < minPts" "md' = set_cluster md2 p Noise" "c' = c"
  | (seed) neigh md2 cs where
      "neighborhood (set_visited md p) p i eps = (neigh, md2, cs)"
      "\<not> int (length neigh) < minPts"
      "expandCluster md2 (c + 1) neigh minPts eps = Some md'" "c' = c + 1"
proof -
  obtain neigh md2 cs where nb: "neighborhood (set_visited md p) p i eps = (neigh, md2, cs)"
    by (cases "neighborhood (set_visited md p) p i eps") auto
  show thesis
  proof (cases "int (length neigh) < minPts")
    case True
    then show ?thesis using assms nb noise by (simp add: scan_step_def)
  next
    case False
    then show ?thesis using assms nb seed
      by (auto simp add: scan_step_def split: option.splits)
  qed
qed

lemma scan_step_keeps_noise:
  assumes "scan_step eps minPts (Some (md, c)) (p, i) = Some (md', c')" and "p < length md"
  shows "length md' = length md \<and>
         (\<forall>j < length md. cluster (md ! j) = Noise \<longrightarrow> cluster (md' ! j) = Noise)"
  using assms(1)
proof (cases rule: scan_step_cases)
  case (noise neigh md2 cs)
  have "p < length (set_visited md p)" using assms(2) by simp
  from neighborhood_unchanged [OF this noise(1)] show ?thesis
    using assms(2) by (auto simp add: noise(3) set_cluster_def nth_list_update)
next
  case (seed neigh md2 cs)
  have "p < length (set_visited md p)" using assms(2) by simp
  from neighborhood_unchanged [OF this seed(1)]
  have a: "length md2 = length md" "\<forall>j < length md. cluster (md2 ! j) = cluster (md ! j)"
    by simp_all
  have "relabels (c + 1) md2 md'"
    using seed(3) unfolding expandCluster_def by (rule expandEach_relabels)
  then show ?thesis using a by (auto simp add: relabels_def falsy_def)
qed

lemma scan_keeps_noise:
  "scan eps minPts (md, c) pts = Some (md', c') \<Longrightarrow> \<forall>pti \<in> set pts. fst pti < length md \<Longrightarrow>
   length md' = length md \<and>
   (\<forall>j < length md. cluster (md ! j) = Noise \<longrightarrow> cluster (md' ! j) = Noise)"
proof (induction pts arbitrary: md c)
  case Nil
  then show ?case by simp
next
  case (Cons pti pts)
  obtain p i where pti: "pti = (p, i)" by (cases pti)
  from Cons.prems(1) obtain md1 c1 where
    s1: "scan_step eps minPts (Some (md, c)) (p, i) = Some (md1, c1)"
    and s2: "scan eps minPts (md1, c1) pts = Some (md', c')"
    by (auto simp add: scan_Cons pti split: option.splits)
  have p: "p < length md" using Cons.prems(2) by (simp add: pti)
  note a = scan_step_keeps_noise [OF s1 p]
  have "\<forall>pti \<in> set pts. fst pti < length md1" using Cons.prems(2) a by simp
  from Cons.IH [OF s2 this] a show ?case by simp
qed

text \<open>
  Claim C8. A label set to the noise marker is never changed afterwards: it is still the
  noise marker after any expansion loop started on the table, and after any remainder of
  the scan.
\<close>

theorem noise_label_kept:
  assumes "j < length md" and "cluster (md ! j) = Noise"
  shows "(expandEach md c neigh todo minPts eps = Some md' \<longrightarrow> cluster (md' ! j) = Noise) \<and>
         (scan eps minPts (md, k) pts = Some (md'', k') \<and> (\<forall>pti \<in> set pts. fst pti < length md)
            \<longrightarrow> cluster (md'' ! j) = Noise)"
proof (intro conjI impI)
  assume "expandEach md c neigh todo minPts eps = Some md'"
  then have "relabels c md md'" by (rule expandEach_relabels)
  then show "cluster (md' ! j) = Noise" using assms by (simp add: relabels_noise)
next
  assume "scan eps minPts (md, k) pts = Some (md'', k') \<and> (\<forall>pti \<in> set pts. fst pti < length md)"
  then show "cluster (md'' ! j) = Noise"
    using scan_keeps_noise [of eps minPts md k pts md'' k'] assms by blast
qed

theorem noise_label_kept_witness:
  "cluster ([\<lparr>visited = True, neighbors = [1 \<mapsto> True, 2 \<mapsto> False], cluster = Noise, obj = [(''x'', 0)]\<rparr>,
       \<lparr>visited = False, neighbors = Map.empty, cluster = Unassigned, obj = [(''x'', 1)]\<rparr>,
       \<lparr>visited = False, neighbors = Map.empty, cluster = Unassigned, obj = [(''x'', 2)]\<rparr>] ! 0) = Noise \<and>
   map_option (\<lambda>m. cluster (m ! 0)) (expandEach
      [\<lparr>visited = True, neighbors = [1 \<mapsto> True, 2 \<mapsto> False], cluster = Noise, obj = [(''x'', 0)]\<rparr>,
       \<lparr>visited = False, neighbors = Map.empty, cluster = Unassigned, obj = [(''x'', 1)]\<rparr>,
       \<lparr>visited = False, neighbors = Map.empty, cluster = Unassigned, obj = [(''x'', 2)]\<rparr>]
      1 [0, 1, 2] [0, 1, 2] 3 (3/2)) = Some Noise \<and>
   map_option (\<lambda>st. cluster (fst st ! 0)) (scan (3/2) 3
     ([\<lparr>visited = True, neighbors = [1 \<mapsto> True, 2 \<mapsto> False], cluster = Noise, obj = [(''x'', 0)]\<rparr>,
       \<lparr>visited = False, neighbors = Map.empty, cluster = Unassigned, obj = [(''x'', 1)]\<rparr>,
       \<lparr>visited = False, neighbors = Map.empty, cluster = Unassigned, obj = [(''x'', 2)]\<rparr>], 0)
     [(1, 1), (2, 2)]) = Some Noise"
proof -
  define S where "S =
      [\<lparr>visited = True, neighbors = [1 \<mapsto> True, 2 \<mapsto> False], cluster = Noise, obj = [(''x'', 0)]\<rparr>,
       \<lparr>visited = False, neighbors = Map.empty, cluster = Unassigned, obj = [(''x'', 1)]\<rparr>,
       \<lparr>visited = False, neighbors = Map.empty, cluster = Unassigned, obj = [(''x'', 2::real)]\<rparr>]"
  have h1: "0 < length S" by (simp add: S_def)
  have h2: "cluster (S ! 0) = Noise" by (simp add: S_def)
  obtain E where h3: "expandEach S 1 [0, 1, 2] [0, 1, 2] 3 (3/2) = Some E"
    by (simp add: S_def ev cong: evc)
  obtain F n where h4: "scan (3/2) 3 (S, 0) [(1, 1), (2, 2)] = Some (F, n)"
    by (simp add: S_def ev cong: evc)
  have h5: "\<forall>pti \<in> set [(1::nat, 1::nat), (2, 2)]. fst pti < length S" by (simp add: S_def)
  note T = noise_label_kept [OF h1 h2, where c = 1 and neigh = "[0, 1, 2]" and todo = "[0, 1, 2]"
      and minPts = 3 and eps = "3/2" and md' = E and pts = "[(1, 1), (2, 2)]" and md'' = F
      and k = 0 and k' = n]
  have "cluster (E ! 0) = Noise"
    by (rule T [THEN conjunct1, rule_format, OF h3])
  moreover have "cluster (F ! 0) = Noise"
    by (rule T [THEN conjunct2, rule_format, OF conjI [OF h4 h5]])
  ultimately show ?thesis using h2 h3 h4 unfolding S_def by simp
qed

section \<open>The scan on well-formed input\<close>

subsection \<open>Tables of a run\<close>

lemma table_ok_length: "table_ok data eps md \<Longrightarrow> length md = length data"
  unfolding table_ok_def by (metis length_map)

lemma table_ok_obj: "table_ok data eps md \<Longrightarrow> j < length md \<Longrightarrow> obj (md ! j) = data ! j"
  unfolding table_ok_def by (metis nth_map)

lemma table_ok_new: "table_ok data eps (map new_meta data)"
  by (simp add: table_ok_def new_meta_def comp_def)

lemma table_ok_set_visited: "table_ok data eps m \<Longrightarrow> table_ok data eps (set_visited m p)"
  by (simp add: table_ok_def)

lemma map_obj_update:
  "obj m = obj (md ! p) \<Longrightarrow> map obj (md[p := m]) = map obj md"
  by (cases "p < length md") (simp_all add: map_update list_update_same_conv list_update_beyond)

lemma set_cluster_obj [simp]: "map obj (set_cluster m p l) = map obj m"
  by (cases "p < length m")
    (simp_all add: set_cluster_def map_update list_update_same_conv list_update_beyond)

lemma set_cluster_neighbors [simp]: "neighbors (set_cluster m p l ! j) = neighbors (m ! j)"
  by (cases "p < length m") (simp_all add: set_cluster_def nth_list_update list_update_beyond)

lemma table_ok_set_cluster: "table_ok data eps m \<Longrightarrow> table_ok data eps (set_cluster m p l)"
  by (simp add: table_ok_def)

lemma table_ok_cache_agrees: "table_ok data eps md \<Longrightarrow> cache_agrees md eps"
  unfolding cache_agrees_def
  by (metis table_ok_def table_ok_obj)

lemma table_ok_neighborhood:
  assumes wf: "well_formed data \<and> plain_objects data"
    and ok: "table_ok data eps md" and i: "i < length md"
    and nb: "neighborhood md i i eps = (neigh, md', cs)"
  shows "table_ok data eps md' \<and> neigh = eps_neighborhood data eps i"
proof -
  have len: "length md = length data" using ok by (rule table_ok_length)
  have ob: "map obj md = data" using ok by (simp add: table_ok_def)
  have self: "neighbors (md ! i) i = None"
  proof (cases "neighbors (md ! i) i")
    case None
    then show ?thesis .
  next
    case (Some b)
    then show ?thesis using ok i unfolding table_ok_def by blast
  qed
  have wf': "well_formed (map obj md) \<and> plain_objects (map obj md)" using wf ob by simp
  have ag: "cache_agrees md eps" using ok by (rule table_ok_cache_agrees)
  have md': "md' = md[i := (md ! i)\<lparr>neighbors := cache_after md i i eps [0..<length md]\<rparr>]"
    and n: "neigh = filter (is_neighbor md i i eps) [0..<length md]"
    using i nb by (simp_all add: neighborhood_closed)
  have "neigh = eps_neighborhood data eps i"
    unfolding n eps_neighborhood_def len [symmetric]
  proof (rule filter_cong [OF refl])
    fix j assume "j \<in> set [0..<length md]"
    then have j: "j < length md" by simp
    show "is_neighbor md i i eps j = (j = i \<or> num_less (distance (data ! i) (data ! j)) eps)"
      using is_neighbor_agrees [OF wf' ag i j self]
      by (simp add: table_ok_obj [OF ok] i j)
  qed
  moreover have "map obj md' = data"
    unfolding md' ob [symmetric] by (rule map_obj_update) simp
  moreover have "k < length md' \<and> k \<noteq> j \<and> b = num_less (distance (data ! j) (data ! k)) eps"
    if j: "j < length md'" and e: "neighbors (md' ! j) k = Some b" for j k b
  proof -
    have j': "j < length md" using j by (simp add: md')
    show ?thesis
    proof (cases "j = i \<and> k < length md \<and> is_computed md i k")
      case True
      then have "b = num_less (distance (obj (md ! i)) (obj (md ! k))) eps"
        using e i by (simp add: md' cache_after_def)
      then show ?thesis
        using True i by (auto simp add: md' is_computed_def table_ok_obj [OF ok])
    next
      case False
      then have "neighbors (md ! j) k = Some b"
        using e i j' by (auto simp add: md' cache_after_def nth_list_update split: if_splits)
      then show ?thesis using ok j' unfolding table_ok_def by (simp add: md')
    qed
  qed
  ultimately show ?thesis unfolding table_ok_def by blast
qed

lemma expandEach_table_ok:
  assumes wf: "well_formed data \<and> plain_objects data"
    and run: "expandEach md c neigh todo minPts eps = Some md'"
    and ok: "table_ok data eps md"
  shows "table_ok data eps md'"
proof -
  have "table_ok data eps md \<longrightarrow> table_ok data eps md'"
    using run
  proof (rule expandEach_relates [where R = "\<lambda>a b. table_ok data eps a \<longrightarrow> table_ok data eps b"])
    show "ni < length m \<Longrightarrow> falsy (cluster (m ! ni)) \<Longrightarrow>
          table_ok data eps m \<longrightarrow> table_ok data eps (set_cluster m ni (Cluster c))" for m ni
      by (simp add: table_ok_set_cluster)
    show "ni < length m \<Longrightarrow> \<not> visited (m ! ni) \<Longrightarrow>
          neighborhood (set_visited m ni) ni ni eps = (nn, m2, cs) \<Longrightarrow>
          table_ok data eps m \<longrightarrow> table_ok data eps m2" for m ni nn m2 cs
      using table_ok_neighborhood [OF wf table_ok_set_visited, of eps m ni ni nn m2 cs]
      by simp
  qed simp_all
  then show ?thesis using ok by simp
qed

subsection \<open>The expansion returns\<close>

lemma set_uniq_fold:
  "set (foldl (\<lambda>result v. if v \<in> set result then result else result @ [v]) acc xs)
     = set acc \<union> set xs"
  by (induction xs arbitrary: acc) auto

lemma set_us_union [simp]: "set (us_union a b) = set a \<union> set b"
  by (simp add: us_union_def uniq_def set_uniq_fold)

lemma neighborhood_indices:
  "p < length md \<Longrightarrow> neighborhood md p i eps = (neigh, md', cs) \<Longrightarrow>
   \<forall>x \<in> set neigh. x < length md"
  by (auto simp add: neighborhood_closed)

lemma expandEach_length:
  "expandEach md c neigh todo minPts eps = Some md' \<Longrightarrow> length md' = length md"
  using expandEach_relabels [of md c neigh todo minPts eps md'] by (simp add: relabels_def)

lemma expandEach_total:
  "\<forall>x \<in> set todo. x < length md \<Longrightarrow> \<forall>x \<in> set neigh. x < length md \<Longrightarrow>
   \<exists>md'. expandEach md c neigh todo minPts eps = Some md'"
proof (induction md c neigh todo minPts eps rule: expandEach.induct)
  case (1 md c neigh minPts eps)
  show ?case by simp
next
  case (2 md c neigh ni todo minPts eps)
  have inr: "\<not> length md \<le> ni" using "2.prems"(1) by simp
  define md1 where "md1 = (if falsy (cluster (md ! ni)) then set_cluster md ni (Cluster c) else md)"
  have l1: "length md1 = length md" by (simp add: md1_def)
  have t1: "\<forall>x \<in> set todo. x < length md1" "\<forall>x \<in> set neigh. x < length md1"
    using "2.prems" by (simp_all add: l1)
  show ?case
  proof (cases "visited (md1 ! ni)")
    case True
    have "\<exists>md'. expandEach md1 c neigh todo minPts eps = Some md'"
      using "2.IH"(4) [OF inr md1_def _ t1] True by simp
    then show ?thesis using inr True by (simp add: md1_def [symmetric])
  next
    case False
    obtain nn md2 cs where nb: "neighborhood (set_visited md1 ni) ni ni eps = (nn, md2, cs)"
      by (cases "neighborhood (set_visited md1 ni) ni ni eps") auto
    have inr': "ni < length (set_visited md1 ni)" using inr by (simp add: l1)
    have l2: "length md2 = length md"
      using neighborhood_length [OF inr' nb] by (simp add: l1)
    have nn: "\<forall>x \<in> set nn. x < length md2"
      using neighborhood_indices [OF inr' nb] by (simp add: l1 l2)
    have t2: "\<forall>x \<in> set todo. x < length md2" "\<forall>x \<in> set neigh. x < length md2"
      using "2.prems" by (simp_all add: l2)
    show ?thesis
    proof (cases "minPts < int (length nn)")
      case True
      have u: "\<forall>x \<in> set (us_union neigh nn). x < length md2"
        using t2(2) nn by auto
      obtain md3 where
        inner: "expandEach md2 c (us_union neigh nn) (us_union neigh nn) minPts eps = Some md3"
        using "2.IH"(1) [OF inr md1_def False nb [symmetric] refl True u u] by blast
      have l3: "length md3 = length md2" using inner by (rule expandEach_length)
      have t3: "\<forall>x \<in> set todo. x < length md3" "\<forall>x \<in> set neigh. x < length md3"
        using t2 by (simp_all add: l3)
      have "\<exists>md'. expandEach md3 c neigh todo minPts eps = Some md'"
        by (rule "2.IH"(2) [OF inr md1_def False nb [symmetric] refl True inner t3])
      then show ?thesis
        using inr False True by (simp add: md1_def [symmetric] nb inner)
    next
      case F: False
      have "\<exists>md'. expandEach md2 c neigh todo minPts eps = Some md'"
        by (rule "2.IH"(3) [OF inr md1_def False nb [symmetric] refl F t2])
      then show ?thesis
        using inr False F by (simp add: md1_def [symmetric] nb)
    qed
  qed
qed

subsection \<open>The scan, point by point\<close>

lemma scan_snoc:
  "scan eps minPts st (pts @ [pti]) =
     (case scan eps minPts st pts of None \<Rightarrow> None
      | Some st' \<Rightarrow> scan_step eps minPts (Some st') pti)"
  by (simp add: scan_def split: option.splits)

lemma scanned_step:
  assumes wf: "well_formed data \<and> plain_objects data" and sc: "scanned data eps minPts k md" and k: "k < length data"
  shows "\<exists>md' c'. scan_step eps minPts (Some (md, c)) (k, k) = Some (md', c') \<and>
                  scanned data eps minPts (Suc k) md'"
proof -
  have ok: "table_ok data eps md" using sc by (simp add: scanned_def)
  have len: "length md = length data" using ok by (rule table_ok_length)
  have lab: "\<And>j. j < length data \<Longrightarrow>
        (cluster (md ! j) = Noise) = (j < k \<and> \<not> core_point data eps minPts j)"
    using sc by (simp add: scanned_def)
  obtain neigh md2 cs where nb: "neighborhood (set_visited md k) k k eps = (neigh, md2, cs)"
    by (cases "neighborhood (set_visited md k) k k eps") auto
  have k': "k < length (set_visited md k)" using k len by simp
  have ok1: "table_ok data eps (set_visited md k)" using ok by (rule table_ok_set_visited)
  from table_ok_neighborhood [OF wf ok1 k' nb]
  have ok2: "table_ok data eps md2" and ne: "neigh = eps_neighborhood data eps k" by simp_all
  from neighborhood_unchanged [OF k' nb]
  have l2: "length md2 = length data"
    and c2: "\<And>j. j < length data \<Longrightarrow> cluster (md2 ! j) = cluster (md ! j)"
    by (simp_all add: len)
  have core: "core_point data eps minPts k = (\<not> int (length neigh) < minPts)"
    using k by (auto simp add: core_point_def ne)
  show ?thesis
  proof (cases "int (length neigh) < minPts")
    case True
    have "scanned data eps minPts (Suc k) (set_cluster md2 k Noise)"
      unfolding scanned_def
    proof (intro conjI allI impI)
      show "table_ok data eps (set_cluster md2 k Noise)"
        using ok2 by (rule table_ok_set_cluster)
      fix j assume j: "j < length data"
      show "(cluster (set_cluster md2 k Noise ! j) = Noise)
              = (j < Suc k \<and> \<not> core_point data eps minPts j)"
        using j k l2 c2 [OF j] lab [OF j] core True
        by (cases "j = k") (auto simp add: set_cluster_def nth_list_update less_Suc_eq)
    qed
    then show ?thesis using nb True by (simp add: scan_step_def)
  next
    case False
    have "\<forall>x \<in> set neigh. x < length md2"
      using neighborhood_indices [OF k' nb] by (simp add: l2 len)
    then obtain md3 where ex: "expandCluster md2 (c + 1) neigh minPts eps = Some md3"
      unfolding expandCluster_def using expandEach_total by blast
    have ok3: "table_ok data eps md3"
      using ex ok2 unfolding expandCluster_def by (rule expandEach_table_ok [OF wf])
    have rl: "relabels (c + 1) md2 md3"
      using ex unfolding expandCluster_def by (rule expandEach_relabels)
    have "scanned data eps minPts (Suc k) md3"
      unfolding scanned_def
    proof (intro conjI allI impI)
      show "table_ok data eps md3" by (rule ok3)
      fix j assume j: "j < length data"
      have "(cluster (md3 ! j) = Noise) = (cluster (md ! j) = Noise)"
        using relabels_noise [OF rl] j l2 c2 [OF j] by simp
      then show "(cluster (md3 ! j) = Noise) = (j < Suc k \<and> \<not> core_point data eps minPts j)"
        using lab [OF j] core False by (cases "j = k") (auto simp add: less_Suc_eq)
    qed
    then show ?thesis using nb False ex by (simp add: scan_step_def)
  qed
qed

lemma scanned_prefix:
  assumes wf: "well_formed data \<and> plain_objects data"
  shows "k \<le> length data \<Longrightarrow>
         \<exists>md c. scan eps minPts (map new_meta data, 0) (zip [0..<k] [0..<k]) = Some (md, c) \<and>
                scanned data eps minPts k md"
proof (induction k)
  case 0
  have "scanned data eps minPts 0 (map new_meta data)"
    by (simp add: scanned_def table_ok_new new_meta_def)
  then show ?case by simp
next
  case (Suc k)
  then obtain md c where
    s: "scan eps minPts (map new_meta data, 0) (zip [0..<k] [0..<k]) = Some (md, c)"
    and sc: "scanned data eps minPts k md"
    by auto
  have k: "k < length data" using Suc.prems by simp
  from scanned_step [OF wf sc k, of c] obtain md' c' where
    "scan_step eps minPts (Some (md, c)) (k, k) = Some (md', c')"
    "scanned data eps minPts (Suc k) md'"
    by blast
  then show ?case by (simp add: scan_snoc s)
qed

lemma where_unvisited_new: "where_unvisited (map new_meta data) = [0..<length data]"
  by (simp add: where_unvisited_def new_meta_def cong: filter_cong)

lemma run_scanned:
  assumes "well_formed data \<and> plain_objects data"
  shows "\<exists>md. run data eps minPts = Some md \<and> scanned data eps minPts (length data) md"
  using scanned_prefix [OF assms, of "length data" eps minPts]
  by (auto simp add: run_def where_unvisited_new)

lemma length_filter_mono:
  "\<forall>x \<in> set xs. P x \<longrightarrow> Q x \<Longrightarrow> length (filter P xs) \<le> length (filter Q xs)"
  by (induction xs) auto

lemma noise_count_scanned:
  assumes "scanned data eps minPts (length data) md"
  shows "noise_count md =
         length (filter (\<lambda>j. \<not> core_point data eps minPts j) [0..<length data])"
proof -
  have len: "length md = length data"
    using assms by (auto simp add: scanned_def dest: table_ok_length)
  have "noise_count md = length (filter (\<lambda>m. cluster m = Noise) (map ((!) md) [0..<length md]))"
    by (simp only: noise_count_def map_nth)
  also have "\<dots> = length (filter (\<lambda>j. cluster (md ! j) = Noise) [0..<length data])"
    by (simp add: len comp_def)
  also have "filter (\<lambda>j. cluster (md ! j) = Noise) [0..<length data] =
             filter (\<lambda>j. \<not> core_point data eps minPts j) [0..<length data]"
    using assms by (intro filter_cong) (simp_all add: scanned_def)
  finally show ?thesis .
qed

lemma core_point_mono:
  assumes "eps1 \<le> eps2" and "core_point data eps1 minPts j"
  shows "core_point data eps2 minPts j"
proof -
  have "length (eps_neighborhood data eps1 j) \<le> length (eps_neighborhood data eps2 j)"
    unfolding eps_neighborhood_def using assms(1)
    by (intro length_filter_mono) (auto simp add: num_less_def split: option.splits)
  then show ?thesis using assms(2) by (simp add: core_point_def)
qed

text \<open>
  Where the noise count is monotone in \<open>eps\<close>: on objects that share their keys and have no
  property \<open>length\<close>, for every \<open>minPts\<close>, a run with the larger \<open>eps\<close> labels at most as
  many points noise as a run with the smaller one, and both runs return.
\<close>

lemma noise_count_antitone_plain:
  assumes "well_formed data" and "plain_objects data" and "eps1 \<le> eps2"
  shows "\<exists>md1 md2. run data eps1 minPts = Some md1 \<and> run data eps2 minPts = Some md2 \<and>
                   noise_count md2 \<le> noise_count md1"
proof -
  have wf: "well_formed data \<and> plain_objects data" using assms(1,2) by simp
  obtain md1 where r1: "run data eps1 minPts = Some md1"
    and s1: "scanned data eps1 minPts (length data) md1"
    using run_scanned [OF wf] by blast
  obtain md2 where r2: "run data eps2 minPts = Some md2"
    and s2: "scanned data eps2 minPts (length data) md2"
    using run_scanned [OF wf] by blast
  have "noise_count md2 \<le> noise_count md1"
    unfolding noise_count_scanned [OF s1] noise_count_scanned [OF s2]
    using core_point_mono [OF assms(3)] by (intro length_filter_mono) blast
  then show ?thesis using r1 r2 by blast
qed

text \<open>
  Claim C9. The claim: with \<open>minPts\<close> fixed, a larger \<open>eps\<close> never gives more noise
  points. Take the four objects \<open>{0: 0, length: 1}\<close>, \<open>{0: 100, length: 0}\<close>,
  \<open>{0: 1, length: 1}\<close>, \<open>{0: 0, length: 1}\<close>, which share their keys, and
  \<open>minPts = 2\<close>. \<open>_.reduce\<close> takes them for arrays, and the distance from the second
  object to any other is 0 while the distance from the first to the second is 100. With
  \<open>eps = 0.5\<close> the second point computes its distance to the third itself and the run
  has no noise point; with \<open>eps = 1.5\<close> the third point computes that distance first,
  and the second point ends as noise.
\<close>

theorem noise_grows_with_eps:
  "well_formed [[(''0'', 0), (''length'', 1)], [(''0'', 100), (''length'', 0)],
                [(''0'', 1), (''length'', 1)], [(''0'', 0), (''length'', 1)]] \<and>
   distance [(''0'', 0), (''length'', 1)] [(''0'', 100), (''length'', 0)] = Some 100 \<and>
   distance [(''0'', 100), (''length'', 0)] [(''0'', 0), (''length'', 1)] = Some 0 \<and>
   map_option (map cluster)
     (run [[(''0'', 0), (''length'', 1)], [(''0'', 100), (''length'', 0)],
           [(''0'', 1), (''length'', 1)], [(''0'', 0), (''length'', 1)]] (1/2) 2)
     = Some [Cluster 1, Cluster 2, Cluster 2, Cluster 1] \<and>
   map_option (map cluster)
     (run [[(''0'', 0), (''length'', 1)], [(''0'', 100), (''length'', 0)],
           [(''0'', 1), (''length'', 1)], [(''0'', 0), (''length'', 1)]] (3/2) 2)
     = Some [Cluster 1, Noise, Cluster 1, Cluster 1] \<and>
   map_option noise_count
     (run [[(''0'', 0), (''length'', 1)], [(''0'', 100), (''length'', 0)],
           [(''0'', 1), (''length'', 1)], [(''0'', 0), (''length'', 1)]] (1/2) 2)
     = Some 0 \<and>
   map_option noise_count
     (run [[(''0'', 0), (''length'', 1)], [(''0'', 100), (''length'', 0)],
           [(''0'', 1), (''length'', 1)], [(''0'', 0), (''length'', 1)]] (3/2) 2)
     = Some 1"
proof -
  let ?D = "[[(''0'', 0), (''length'', 1)], [(''0'', 100), (''length'', 0)],
             [(''0'', 1), (''length'', 1)], [(''0'', 0), (''length'', 1::real)]]"
  have w: "well_formed ?D" by (simp add: well_formed_def)
  have d1: "distance [(''0'', 0), (''length'', 1)] [(''0'', 100), (''length'', 0)] = Some 100"
    by (simp add: distance_length_1)
  have d2: "distance [(''0'', 100), (''length'', 0)] [(''0'', 0), (''length'', 1)] = Some 0"
    by (simp add: distance_length_0)
  have a: "map_option (map cluster) (run ?D (1/2) 2)
             = Some [Cluster 1, Cluster 2, Cluster 2, Cluster 1]"
    by (simp add: ev distance_length_1 distance_length_0 cong: evc)
  have b: "map_option (map cluster) (run ?D (3/2) 2)
             = Some [Cluster 1, Noise, Cluster 1, Cluster 1]"
    by (simp add: ev distance_length_1 distance_length_0 cong: evc)
  have c: "map_option noise_count (run ?D (1/2) 2) = Some 0"
    by (simp add: noise_count_def ev distance_length_1 distance_length_0 cong: evc)
  have d: "map_option noise_count (run ?D (3/2) 2) = Some 1"
    by (simp add: noise_count_def ev distance_length_1 distance_length_0 cong: evc)
  show ?thesis using w d1 d2 a b c d by blast
qed

text \<open>The input is one of the documented kind: read off the theorem at two of its objects.\<close>

theorem noise_grows_with_eps_witness:
  "distinct (map fst [(''0'', 100::real), (''length'', 0)]) \<and>
   set (map fst [(''0'', 0::real), (''length'', 1)]) =
   set (map fst [(''0'', 100::real), (''length'', 0)])"
proof -
  let ?D = "[[(''0'', 0), (''length'', 1)], [(''0'', 100), (''length'', 0)],
             [(''0'', 1), (''length'', 1)], [(''0'', 0), (''length'', 1::real)]]"
  have w: "well_formed ?D" using noise_grows_with_eps by blast
  have a: "[(''0'', 0), (''length'', 1)] \<in> set ?D" by simp
  have b: "[(''0'', 100), (''length'', 0)] \<in> set ?D" by simp
  have "distinct (map fst [(''0'', 100::real), (''length'', 0)])"
    using w b unfolding well_formed_def by blast
  moreover have "set (map fst [(''0'', 0::real), (''length'', 1)]) =
                 set (map fst [(''0'', 100::real), (''length'', 0)])"
    using w a b unfolding well_formed_def by blast
  ultimately show ?thesis by blast
qed

section \<open>The two density tests\<close>

text \<open>
  Claim C7. At the scan turn of a point the orchestrator creates a new cluster (the next
  identifier, followed by an expansion) exactly when the size of the point's neighborhood
  is at least \<open>minPts\<close>, and labels the point noise otherwise; the expansion, at a
  neighbor it visits for the first time, recurses on the union of the frontier and the
  neighbor's neighborhood exactly when the size of that neighborhood is strictly greater
  than \<open>minPts\<close>, and otherwise goes on with the rest of its frontier.
\<close>

theorem density_thresholds:
  assumes "neighborhood (set_visited md p) p i eps = (neigh, md2, cs)"
    and "ni < length m" and "\<not> visited (m ! ni)"
    and "neighborhood
           (set_visited (if falsy (cluster (m ! ni)) then set_cluster m ni (Cluster c) else m) ni)
           ni ni eps = (nn, m2, cs')"
  shows "scan_step eps minPts (Some (md, k)) (p, i) =
           (if minPts \<le> int (length neigh)
            then map_option (\<lambda>md3. (md3, k + 1)) (expandCluster md2 (k + 1) neigh minPts eps)
            else Some (set_cluster md2 p Noise, k)) \<and>
         expandEach m c frontier (ni # todo) minPts eps =
           (if minPts < int (length nn)
            then Option.bind (expandCluster m2 c (us_union frontier nn) minPts eps)
                   (\<lambda>m3. expandEach m3 c frontier todo minPts eps)
            else expandEach m2 c frontier todo minPts eps)"
proof
  show "scan_step eps minPts (Some (md, k)) (p, i) =
           (if minPts \<le> int (length neigh)
            then map_option (\<lambda>md3. (md3, k + 1)) (expandCluster md2 (k + 1) neigh minPts eps)
            else Some (set_cluster md2 p Noise, k))"
    using assms(1) by (simp add: scan_step_def split: option.splits)
next
  define m1 where "m1 = (if falsy (cluster (m ! ni)) then set_cluster m ni (Cluster c) else m)"
  have v: "\<not> visited (m1 ! ni)"
    using assms(2,3) by (simp add: m1_def set_cluster_def)
  have nb: "neighborhood (set_visited m1 ni) ni ni eps = (nn, m2, cs')"
    using assms(4) by (simp add: m1_def)
  have "expandEach m c frontier (ni # todo) minPts eps =
          (if minPts < int (length nn)
           then (case expandEach m2 c (us_union frontier nn) (us_union frontier nn) minPts eps of
                   None \<Rightarrow> None
                 | Some m3 \<Rightarrow> expandEach m3 c frontier todo minPts eps)
           else expandEach m2 c frontier todo minPts eps)"
    using assms(2) v nb by (simp add: m1_def [symmetric])
  then show "expandEach m c frontier (ni # todo) minPts eps =
           (if minPts < int (length nn)
            then Option.bind (expandCluster m2 c (us_union frontier nn) minPts eps)
                   (\<lambda>m3. expandEach m3 c frontier todo minPts eps)
            else expandEach m2 c frontier todo minPts eps)"
    by (simp add: expandCluster_def split: option.splits)
qed

theorem density_thresholds_witness:
  "neighborhood (set_visited (map new_meta [[(''x'', 0)], [(''x'', 1)]]) 0) 0 0 2 =
     ([0, 1],
      [\<lparr>visited = True, neighbors = [1 \<mapsto> True], cluster = Unassigned, obj = [(''x'', 0)]\<rparr>,
       \<lparr>visited = False, neighbors = Map.empty, cluster = Unassigned, obj = [(''x'', 1)]\<rparr>],
      [1]) \<and>
   neighborhood (set_visited (set_cluster
      [\<lparr>visited = True, neighbors = [1 \<mapsto> True], cluster = Cluster 1, obj = [(''x'', 0)]\<rparr>,
       \<lparr>visited = False, neighbors = Map.empty, cluster = Unassigned, obj = [(''x'', 1)]\<rparr>]
      1 (Cluster 1)) 1) 1 1 2 =
     ([0, 1],
      [\<lparr>visited = True, neighbors = [1 \<mapsto> True], cluster = Cluster 1, obj = [(''x'', 0)]\<rparr>,
       \<lparr>visited = True, neighbors = Map.empty, cluster = Cluster 1, obj = [(''x'', 1)]\<rparr>],
      []) \<and>
   scan_step 2 2 (Some (map new_meta [[(''x'', 0)], [(''x'', 1)]], 0)) (0, 0) =
     Some ([\<lparr>visited = True, neighbors = [1 \<mapsto> True], cluster = Cluster 1, obj = [(''x'', 0)]\<rparr>,
            \<lparr>visited = True, neighbors = Map.empty, cluster = Cluster 1, obj = [(''x'', 1)]\<rparr>], 1) \<and>
   expandEach
      [\<lparr>visited = True, neighbors = [1 \<mapsto> True], cluster = Cluster 1, obj = [(''x'', 0)]\<rparr>,
       \<lparr>visited = False, neighbors = Map.empty, cluster = Unassigned, obj = [(''x'', 1)]\<rparr>]
      1 [0, 1] [1] 2 2 =
     Some [\<lparr>visited = True, neighbors = [1 \<mapsto> True], cluster = Cluster 1, obj = [(''x'', 0)]\<rparr>,
           \<lparr>visited = True, neighbors = Map.empty, cluster = Cluster 1, obj = [(''x'', 1)]\<rparr>]"
proof -
  define M where "M =
      [\<lparr>visited = True, neighbors = [1 \<mapsto> True], cluster = Unassigned, obj = [(''x'', 0)]\<rparr>,
       \<lparr>visited = False, neighbors = Map.empty, cluster = Unassigned, obj = [(''x'', 1::real)]\<rparr>]"
  define m where "m =
      [\<lparr>visited = True, neighbors = [1 \<mapsto> True], cluster = Cluster 1, obj = [(''x'', 0)]\<rparr>,
       \<lparr>visited = False, neighbors = Map.empty, cluster = Unassigned, obj = [(''x'', 1::real)]\<rparr>]"
  define M2 where "M2 =
      [\<lparr>visited = True, neighbors = [1 \<mapsto> True], cluster = Cluster 1, obj = [(''x'', 0)]\<rparr>,
       \<lparr>visited = True, neighbors = Map.empty, cluster = Cluster 1, obj = [(''x'', 1::real)]\<rparr>]"
  have h1: "neighborhood (set_visited (map new_meta [[(''x'', 0)], [(''x'', 1)]]) 0) 0 0 2 =
              ([0, 1], M, [1])"
    by (simp add: M_def ev cong: evc)
  have h2: "1 < length m" by (simp add: m_def)
  have h3: "\<not> visited (m ! 1)" by (simp add: m_def)
  have f: "falsy (cluster (m ! 1))" by (simp add: m_def falsy_def)
  have h4': "neighborhood (set_visited (set_cluster m 1 (Cluster 1)) 1) 1 1 2 = ([0, 1], M2, [])"
    by (simp add: m_def M2_def ev cong: evc)
  have h4: "neighborhood
           (set_visited (if falsy (cluster (m ! 1)) then set_cluster m 1 (Cluster 1) else m) 1)
           1 1 2 = ([0, 1], M2, [])"
    using h4' f by simp
  have e1: "expandCluster M 1 [0, 1] 2 2 = Some M2"
    by (simp add: M_def M2_def ev cong: evc)
  note T = density_thresholds [OF h1 h2 h3 h4, where minPts = 2 and k = 0 and frontier = "[0, 1]"
      and todo = "[]"]
  have a: "scan_step 2 2 (Some (map new_meta [[(''x'', 0)], [(''x'', 1)]], 0)) (0, 0) = Some (M2, 1)"
    using T [THEN conjunct1] e1 by simp
  have b: "expandEach m 1 [0, 1] [1] 2 2 = Some M2"
    using T [THEN conjunct2] by simp
  show ?thesis using h1 h4' a b unfolding M_def m_def M2_def by simp
qed

section \<open>Runs that depart from the specification\<close>

text \<open>
  Claim C1. The claim: the expansion from a core seed point labels every point that is
  density-reachable from the seed with the seed's cluster identifier. Take four points
  on a line, with coordinates \<open>0, 1, -1, 2\<close> at the indices \<open>0, 1, 2, 3\<close>, and
  \<open>eps = 1.5\<close>, \<open>minPts = 3\<close>. The point of index 3 is density-reachable from the seed
  of index 0 through the core point of index 1, whose neighborhood has exactly \<open>minPts\<close>
  points. The expansion with identifier 1 from the neighborhood \<open>[0, 1, 2]\<close> of the seed
  does not recurse at index 1 and leaves index 3 unassigned, and the run ends with the
  points of index 2 and 3 labelled noise.
\<close>

theorem reachable_point_left_out:
  "density_reachable [[(''x'', 0)], [(''x'', 1)], [(''x'', -1)], [(''x'', 2)]] (3/2) 3 0 3 \<and>
   fst (neighborhood
          (set_visited (map new_meta [[(''x'', 0)], [(''x'', 1)], [(''x'', -1)], [(''x'', 2)]]) 0)
          0 0 (3/2)) = [0, 1, 2] \<and>
   map_option (map cluster)
     (expandCluster
        (fst (snd (neighborhood
          (set_visited (map new_meta [[(''x'', 0)], [(''x'', 1)], [(''x'', -1)], [(''x'', 2)]]) 0)
          0 0 (3/2))))
        1 [0, 1, 2] 3 (3/2))
     = Some [Cluster 1, Cluster 1, Cluster 1, Unassigned] \<and>
   map_option (map cluster)
     (run [[(''x'', 0)], [(''x'', 1)], [(''x'', -1)], [(''x'', 2)]] (3/2) 3)
     = Some [Cluster 1, Cluster 1, Noise, Noise]"
proof -
  let ?D = "[[(''x'', 0)], [(''x'', 1)], [(''x'', -1)], [(''x'', 2::real)]]"
  have c0: "core_point ?D (3/2) 3 0"
    by (simp add: core_point_def eps_neighborhood_def num_less_def distance_1d upt_rec)
  have n0: "1 \<in> set (eps_neighborhood ?D (3/2) 0)"
    by (simp add: eps_neighborhood_def num_less_def distance_1d upt_rec)
  have c1: "core_point ?D (3/2) 3 1"
    by (simp add: core_point_def eps_neighborhood_def num_less_def distance_1d upt_rec)
  have n1: "3 \<in> set (eps_neighborhood ?D (3/2) 1)"
    by (simp add: eps_neighborhood_def num_less_def distance_1d upt_rec)
  have r: "density_reachable ?D (3/2) 3 0 3"
    by (rule density_reachable.chain [OF density_reachable.direct [OF c0 n0] c1 n1])
  have a: "fst (neighborhood (set_visited (map new_meta ?D) 0) 0 0 (3/2)) = [0, 1, 2]"
    by (simp add: ev cong: evc)
  have b: "map_option (map cluster)
     (expandCluster (fst (snd (neighborhood (set_visited (map new_meta ?D) 0) 0 0 (3/2))))
        1 [0, 1, 2] 3 (3/2))
     = Some [Cluster 1, Cluster 1, Cluster 1, Unassigned]"
    by (simp add: ev cong: evc)
  have c: "map_option (map cluster) (run ?D (3/2) 3) = Some [Cluster 1, Cluster 1, Noise, Noise]"
    by (simp add: ev cong: evc)
  show ?thesis using r a b c by simp
qed

text \<open>
  Claim C3. The claim: the scan processes a point only if it is still unvisited when it
  is reached. The filtered array is built before the loop, from the fresh table, and
  holds every point: on two points at distance 1 with \<open>eps = 2\<close> and \<open>minPts = 2\<close>,
  point 1 is visited during the expansion of the first cluster, and the scan step at
  point 1 still runs and allocates the identifier 2.
\<close>

theorem scan_reaches_visited_point:
  "where_unvisited (map new_meta [[(''x'', 0)], [(''x'', 1)]]) = [0, 1] \<and>
   scan 2 2 (map new_meta [[(''x'', 0)], [(''x'', 1)]], 0) [(0, 0)] =
     Some ([\<lparr>visited = True, neighbors = [1 \<mapsto> True], cluster = Cluster 1, obj = [(''x'', 0)]\<rparr>,
            \<lparr>visited = True, neighbors = Map.empty, cluster = Cluster 1, obj = [(''x'', 1)]\<rparr>], 1) \<and>
   scan_step 2 2
     (Some ([\<lparr>visited = True, neighbors = [1 \<mapsto> True], cluster = Cluster 1, obj = [(''x'', 0)]\<rparr>,
             \<lparr>visited = True, neighbors = Map.empty, cluster = Cluster 1, obj = [(''x'', 1)]\<rparr>], 1))
     (1, 1) =
     Some ([\<lparr>visited = True, neighbors = [1 \<mapsto> True], cluster = Cluster 1, obj = [(''x'', 0)]\<rparr>,
            \<lparr>visited = True, neighbors = Map.empty, cluster = Cluster 1, obj = [(''x'', 1)]\<rparr>], 2)"
  by (simp add: ev cong: evc)

text \<open>
  Claim C5. The claim: the labels of the result are the noise marker or positive
  integers, and the integers used form a range \<open>1..k\<close> without gaps. On two pairs of
  points far apart the identifiers in the result are 1 and 3: the identifier 2 is
  allocated at the scan turn of the already labelled point 1 and is given to no point.
\<close>

theorem cluster_ids_with_gap:
  "map_option (map cluster)
     (run [[(''x'', 0)], [(''x'', 1)], [(''x'', 10)], [(''x'', 11)]] (3/2) 2)
     = Some [Cluster 1, Cluster 1, Cluster 3, Cluster 3]"
  by (simp add: ev cong: evc)

text \<open>
  Claim C6. The claim: a label set to a positive integer keeps that value until the end
  of the run. On the points \<open>0, 1, 2\<close> of a line with \<open>eps = 1.5\<close> and
  \<open>minPts = 3\<close>, point 2 is labelled 1 by the expansion from point 1, and the scan step
  at point 2 then replaces the label by the noise marker.
\<close>

theorem cluster_label_overwritten:
  "map_option (\<lambda>st. cluster (fst st ! 2))
     (scan (3/2) 3 (map new_meta [[(''x'', 0)], [(''x'', 1)], [(''x'', 2)]], 0) [(0, 0), (1, 1)])
     = Some (Cluster 1) \<and>
   map_option (\<lambda>st. cluster (fst st ! 2))
     (scan (3/2) 3 (map new_meta [[(''x'', 0)], [(''x'', 1)], [(''x'', 2)]], 0)
        [(0, 0), (1, 1), (2, 2)])
     = Some Noise \<and>
   map_option (map cluster) (run [[(''x'', 0)], [(''x'', 1)], [(''x'', 2)]] (3/2) 3)
     = Some [Noise, Cluster 1, Noise]"
  by (simp add: ev cong: evc)

end
